theory Spec2Isabelle
  imports Main "HOL-Library.Monad_Syntax"
begin

section \<open>String helpers of \<^verbatim>\<open>instruction_dependency.hpp\<close>\<close>

text \<open>
  A \<^verbatim>\<open>std::string\<close> is a \<^typ>\<open>string\<close> (a list of bytes). The blank characters that
  \<^verbatim>\<open>trim\<close> strips are the four of its literal \<^verbatim>\<open>" \t\n\r"\<close>.
\<close>

definition trim_chars :: "string" where
  "trim_chars = [CHR '' '', CHR 0x09, CHR 0x0A, CHR 0x0D]"

text \<open>
  \<^verbatim>\<open>s.find_first_not_of(cs)\<close> and \<^verbatim>\<open>s.find_last_not_of(cs)\<close>: the index of the first
  (last) character of \<open>s\<close> that is not in \<open>cs\<close>; \<open>None\<close> stands for \<^verbatim>\<open>npos\<close>.
\<close>

fun find_first_not_of :: "string \<Rightarrow> string \<Rightarrow> nat option" where
  "find_first_not_of [] cs = None"
| "find_first_not_of (c # s) cs =
     (if c \<in> set cs then map_option Suc (find_first_not_of s cs) else Some 0)"

definition find_last_not_of :: "string \<Rightarrow> string \<Rightarrow> nat option" where
  "find_last_not_of s cs =
     (case find_first_not_of (rev s) cs of
        None \<Rightarrow> None
      | Some k \<Rightarrow> Some (length s - 1 - k))"

text \<open>\<^verbatim>\<open>s.substr(pos, len)\<close> for \<open>pos \<le> size\<close>: at most \<open>len\<close> characters from \<open>pos\<close>.\<close>

definition substr :: "string \<Rightarrow> nat \<Rightarrow> nat \<Rightarrow> string" where
  "substr s pos len = take len (drop pos s)"

text \<open>
  \<^verbatim>\<open>trim\<close>: a string with no character outside the blank set is returned as it is
  (the source returns \<open>s\<close>, not the empty string). Once \<open>first\<close> is found, \<open>last\<close> is found
  too and is not before it (lemma \<open>find_last_after_first\<close> below), so the unsigned
  \<open>last - first + 1\<close> of the source never wraps; were \<open>last\<close> equal to \<^verbatim>\<open>npos\<close>, it would
  wrap to \<open>2^64 - first\<close> and \<^verbatim>\<open>substr\<close> would give the rest of the string.
\<close>

definition trim :: "string \<Rightarrow> string" where
  "trim s =
     (case find_first_not_of s trim_chars of
        None \<Rightarrow> s
      | Some first_ix \<Rightarrow>
          (case find_last_not_of s trim_chars of
             None \<Rightarrow> drop first_ix s
           | Some last_ix \<Rightarrow> substr s first_ix (last_ix - first_ix + 1)))"

text \<open>\<^verbatim>\<open>std::toupper\<close> in the default "C" locale: only \<open>a\<close> .. \<open>z\<close> change.\<close>

definition toupper :: "char \<Rightarrow> char" where
  "toupper c =
     (let n = (of_char c :: nat)
      in if 97 \<le> n \<and> n \<le> 122 then char_of (n - 32) else c)"

definition to_upper :: "string \<Rightarrow> string" where
  "to_upper s = map toupper s"

section \<open>Tokenizing one instruction\<close>

text \<open>
  \<^verbatim>\<open>std::replace(first, last, old, new)\<close> over the whole string, and the white space of
  the stream extraction \<^verbatim>\<open>ss >> part\<close> (\<^verbatim>\<open>std::isspace\<close> in the "C" locale: the space
  and the bytes 9 to 13).
\<close>

definition replace_char :: "char \<Rightarrow> char \<Rightarrow> string \<Rightarrow> string" where
  "replace_char old new s = map (\<lambda>c. if c = old then new else c) s"

definition isspace :: "char \<Rightarrow> bool" where
  "isspace c = (c = CHR '' '' \<or> (9 \<le> (of_char c :: nat) \<and> (of_char c :: nat) \<le> 13))"

text \<open>
  One \<^verbatim>\<open>ss >> part\<close>: leading white space is skipped, then characters are taken up to
  the next white space or the end of the stream. The extraction fails (\<open>None\<close>) when no
  character is left; otherwise it gives the token and the rest of the stream.
\<close>

definition stream_extract :: "string \<Rightarrow> (string \<times> string) option" where
  "stream_extract s =
     (let s' = dropWhile isspace s
      in if s' = [] then None
         else Some (takeWhile (\<lambda>c. \<not> isspace c) s', dropWhile (\<lambda>c. \<not> isspace c) s'))"

text \<open>The loop \<^verbatim>\<open>while (ss >> part) parts.push_back(trim(part))\<close>.\<close>

function read_parts :: "string \<Rightarrow> string list" where
  "read_parts s =
     (case stream_extract s of
        None \<Rightarrow> []
      | Some (part, rest) \<Rightarrow> trim part # read_parts rest)"
  by pat_completeness auto
termination
proof (relation "measure length")
  show "wf (measure length)" by simp
next
  fix s :: string and x :: "string \<times> string" and part rest :: string
  assume a: "stream_extract s = Some x" and x: "(part, rest) = x"
  let ?s' = "dropWhile isspace s"
  from a x have ne: "?s' \<noteq> []" and r: "rest = dropWhile (\<lambda>c. \<not> isspace c) ?s'"
    by (auto simp: stream_extract_def Let_def split: if_splits)
  from ne have "\<not> isspace (hd ?s')"
    by (simp add: hd_dropWhile)
  with ne have "length (dropWhile (\<lambda>c. \<not> isspace c) ?s') < length ?s'"
    by (cases ?s') (auto simp: less_Suc_eq_le length_dropWhile_le)
  moreover have "length ?s' \<le> length s"
    by (rule length_dropWhile_le)
  ultimately show "(rest, s) \<in> measure length"
    using r by simp
qed

declare read_parts.simps [simp del]

definition parse_instruction :: "string \<Rightarrow> string list" where
  "parse_instruction instruction =
     read_parts
       (replace_char (CHR '')'') (CHR '' '')
         (replace_char (CHR ''('') (CHR '' '')
           (replace_char (CHR '';'') (CHR '' '')
             (replace_char (CHR '','') (CHR '' '') instruction))))"

section \<open>The scanner\<close>

text \<open>
  The members of \<^verbatim>\<open>Dependency_Identifier\<close>: \<^verbatim>\<open>_instructions\<close>, \<^verbatim>\<open>parsed_instructions\<close>
  and \<^verbatim>\<open>operand_map\<close>, a \<^verbatim>\<open>std::map\<close> from the opcode to the pair of the destination
  index and the source indices (both \<^verbatim>\<open>int\<close>).
\<close>

record scanner =
  instructions :: "string list"
  parsed_instructions :: "string list list"
  operand_map :: "string \<rightharpoonup> int \<times> int list"

text \<open>The twenty assignments \<^verbatim>\<open>operand_map[...] = {...}\<close> of the constructor, in order.\<close>

definition initial_operand_map :: "string \<rightharpoonup> int \<times> int list" where
  "initial_operand_map =
     Map.empty
      (''ADD'' \<mapsto> (1, [2, 3]),
       ''ADDI'' \<mapsto> (1, [2]),
       ''SUB'' \<mapsto> (1, [2, 3]),
       ''MUL'' \<mapsto> (1, [2, 3]),
       ''DIV'' \<mapsto> (1, [2, 3]),
       ''LD'' \<mapsto> (1, []),
       ''SD'' \<mapsto> (0, [1, 3]),
       ''DADD'' \<mapsto> (1, [2, 3]),
       ''DADDI'' \<mapsto> (1, [2]),
       ''DSUB'' \<mapsto> (1, [2, 3]),
       ''DMUL'' \<mapsto> (1, [2, 3]),
       ''DDIV'' \<mapsto> (1, [2, 3]),
       ''SLT'' \<mapsto> (1, [2, 3]),
       ''SGT'' \<mapsto> (1, [2, 3]),
       ''BEQ'' \<mapsto> (0, [1, 2]),
       ''BNE'' \<mapsto> (0, [1, 2]),
       ''BLTZ'' \<mapsto> (0, [1, 2]),
       ''BGTZ'' \<mapsto> (0, [1, 2]),
       ''BGEZ'' \<mapsto> (0, [1, 2]),
       ''BLEZ'' \<mapsto> (0, [1, 2]))"

text \<open>The loop of the constructor: each instruction is parsed and pushed back.\<close>

fun parse_all :: "string list \<Rightarrow> string list list \<Rightarrow> string list list" where
  "parse_all [] parsed = parsed"
| "parse_all (inst # rest) parsed = parse_all rest (parsed @ [parse_instruction inst])"

definition Dependency_Identifier :: "string list \<Rightarrow> scanner" where
  "Dependency_Identifier insts =
     \<lparr> instructions = insts,
       parsed_instructions = parse_all insts [],
       operand_map = initial_operand_map \<rparr>"

section \<open>Reading the operands of an instruction\<close>

text \<open>
  \<^verbatim>\<open>operator[]\<close> of a vector has a value only within bounds: an access outside is
  undefined behaviour, which the model keeps as \<open>None\<close>. An \<^verbatim>\<open>int\<close> compared with a
  \<^verbatim>\<open>size_t\<close>, or used as a vector index, is converted to the unsigned 64-bit type.
\<close>

definition vec_at :: "'a list \<Rightarrow> nat \<Rightarrow> 'a option" where
  "vec_at xs i = (if i < length xs then Some (xs ! i) else None)"

definition to_size_t :: "int \<Rightarrow> nat" where
  "to_size_t x = nat (x mod 2 ^ 64)"

definition get_destination_register :: "scanner \<Rightarrow> nat \<Rightarrow> string option" where
  "get_destination_register sc index =
     (if index \<ge> length (parsed_instructions sc) then Some []
      else do {
        instruction_parts \<leftarrow> vec_at (parsed_instructions sc) index;
        if instruction_parts = [] then Some []
        else do {
          opcode0 \<leftarrow> vec_at instruction_parts 0;
          case operand_map sc (to_upper opcode0) of
            None \<Rightarrow> Some []
          | Some (dest_index, source_indices) \<Rightarrow>
              if dest_index > 0 \<and> to_size_t dest_index < length instruction_parts
              then vec_at instruction_parts (to_size_t dest_index)
              else Some []
        }
      })"

text \<open>The loop over the source indices of \<^verbatim>\<open>get_source_registers\<close>.\<close>

fun push_sources :: "string list \<Rightarrow> int list \<Rightarrow> string list \<Rightarrow> string list option" where
  "push_sources instruction_parts [] sources = Some sources"
| "push_sources instruction_parts (src_index # others) sources =
     (if src_index > 0 \<and> to_size_t src_index < length instruction_parts
      then case vec_at instruction_parts (to_size_t src_index) of
             None \<Rightarrow> None
           | Some reg \<Rightarrow> push_sources instruction_parts others (sources @ [reg])
      else push_sources instruction_parts others sources)"

definition get_source_registers :: "scanner \<Rightarrow> nat \<Rightarrow> string list option" where
  "get_source_registers sc index =
     (if index \<ge> length (parsed_instructions sc) then Some []
      else do {
        instruction_parts \<leftarrow> vec_at (parsed_instructions sc) index;
        if instruction_parts = [] then Some []
        else do {
          opcode0 \<leftarrow> vec_at instruction_parts 0;
          case operand_map sc (to_upper opcode0) of
            None \<Rightarrow> Some []
          | Some (dest_index, source_indices) \<Rightarrow>
              push_sources instruction_parts source_indices []
        }
      })"

section \<open>The three scans\<close>

text \<open>
  A scan writes its report to \<^verbatim>\<open>std::cout\<close>. The model returns what is written as a list
  of report items, one for each block of output statements of the source, and \<open>render\<close>
  gives the lines of text of an item. \<open>Found k i ti ri j tj rj\<close> is the block of a
  dependency of kind \<open>k\<close>: the index, the text and the register printed for the earlier
  instruction, then those of the later one.
\<close>

datatype hazard = RAW | WAR | WAW

datatype report_item =
    Heading hazard
  | No_Instructions
  | Found hazard nat string string nat string string
  | Complete

fun hazard_name :: "hazard \<Rightarrow> string" where
  "hazard_name RAW = ''RAW''"
| "hazard_name WAR = ''WAR''"
| "hazard_name WAW = ''WAW''"

fun earlier_verb :: "hazard \<Rightarrow> string" where
  "earlier_verb RAW = ''writes to''"
| "earlier_verb WAR = ''reads from''"
| "earlier_verb WAW = ''writes to''"

fun later_verb :: "hazard \<Rightarrow> string" where
  "later_verb RAW = ''reads from''"
| "later_verb WAR = ''writes to''"
| "later_verb WAW = ''also writes to''"

text \<open>A \<^verbatim>\<open>size_t\<close> written to the stream: its decimal digits.\<close>

fun show_nat :: "nat \<Rightarrow> string" where
  "show_nat n =
     (if n < 10 then [char_of (48 + n)]
      else show_nat (n div 10) @ [char_of (48 + n mod 10)])"

declare show_nat.simps [simp del]

fun render :: "report_item \<Rightarrow> string list" where
  "render (Heading k) = [''--- Identifying '' @ hazard_name k @ '' Dependencies ---'']"
| "render No_Instructions = [''No instructions to analyze.'']"
| "render (Found k i ti ri j tj rj) =
     [hazard_name k @ '' Dependency Found:'',
      [CHR 0x09] @ ''Instruction '' @ show_nat i @ '': ('' @ ti @ '') '' @ earlier_verb k
        @ '' register '' @ ri @ ''.'',
      [CHR 0x09] @ ''Instruction '' @ show_nat j @ '': ('' @ tj @ '') '' @ later_verb k
        @ '' register '' @ rj @ ''.'',
      ''------------------------------------'']"
| "render Complete = [''--- Analysis Complete ---'']"

definition render_report :: "report_item list \<Rightarrow> string list" where
  "render_report items = concat (map render items)"

subsection \<open>RAW\<close>

text \<open>The loop over \<^verbatim>\<open>src_regs\<close>, the loop over \<open>j\<close> and the loop over \<open>i\<close>.\<close>

fun raw_sources ::
  "scanner \<Rightarrow> nat \<Rightarrow> string \<Rightarrow> nat \<Rightarrow> string list \<Rightarrow> report_item list option" where
  "raw_sources sc i dest_reg j [] = Some []"
| "raw_sources sc i dest_reg j (src_reg # others) =
     (if src_reg = dest_reg
      then do {
        ti \<leftarrow> vec_at (instructions sc) i;
        tj \<leftarrow> vec_at (instructions sc) j;
        rest \<leftarrow> raw_sources sc i dest_reg j others;
        Some (Found RAW i ti dest_reg j tj dest_reg # rest)
      }
      else raw_sources sc i dest_reg j others)"

function raw_later :: "scanner \<Rightarrow> nat \<Rightarrow> string \<Rightarrow> nat \<Rightarrow> report_item list option" where
  "raw_later sc i dest_reg j =
     (if j < length (parsed_instructions sc)
      then do {
        src_regs \<leftarrow> get_source_registers sc j;
        out \<leftarrow> raw_sources sc i dest_reg j src_regs;
        rest \<leftarrow> raw_later sc i dest_reg (j + 1);
        Some (out @ rest)
      }
      else Some [])"
  by pat_completeness auto
termination
  by (relation "measure (\<lambda>(sc, i, dest_reg, j). length (parsed_instructions sc) - j)") auto

declare raw_later.simps [simp del]

function raw_earlier :: "scanner \<Rightarrow> nat \<Rightarrow> report_item list option" where
  "raw_earlier sc i =
     (if i < length (parsed_instructions sc)
      then do {
        dest_reg \<leftarrow> get_destination_register sc i;
        if dest_reg = [] then raw_earlier sc (i + 1)
        else do {
          out \<leftarrow> raw_later sc i dest_reg (i + 1);
          rest \<leftarrow> raw_earlier sc (i + 1);
          Some (out @ rest)
        }
      }
      else Some [])"
  by pat_completeness auto
termination
  by (relation "measure (\<lambda>(sc, i). length (parsed_instructions sc) - i)") auto

declare raw_earlier.simps [simp del]

text \<open>
  No statement of a scan, or of the functions it calls, assigns a member, so the scanner
  it leaves behind is the one it was called on.
\<close>

definition find_RAW_dependencies :: "scanner \<Rightarrow> (report_item list \<times> scanner) option" where
  "find_RAW_dependencies sc =
     (if parsed_instructions sc = [] then Some ([Heading RAW, No_Instructions], sc)
      else do {
        out \<leftarrow> raw_earlier sc 0;
        Some (Heading RAW # out @ [Complete], sc)
      })"

subsection \<open>WAR\<close>

fun war_sources ::
  "scanner \<Rightarrow> nat \<Rightarrow> nat \<Rightarrow> string \<Rightarrow> string list \<Rightarrow> report_item list option" where
  "war_sources sc i j dest_reg_j [] = Some []"
| "war_sources sc i j dest_reg_j (src_reg # others) =
     (if src_reg = dest_reg_j
      then do {
        ti \<leftarrow> vec_at (instructions sc) i;
        tj \<leftarrow> vec_at (instructions sc) j;
        rest \<leftarrow> war_sources sc i j dest_reg_j others;
        Some (Found WAR i ti src_reg j tj dest_reg_j # rest)
      }
      else war_sources sc i j dest_reg_j others)"

function war_later :: "scanner \<Rightarrow> nat \<Rightarrow> string list \<Rightarrow> nat \<Rightarrow> report_item list option" where
  "war_later sc i src_regs_i j =
     (if j < length (parsed_instructions sc)
      then do {
        dest_reg_j \<leftarrow> get_destination_register sc j;
        if dest_reg_j = [] then war_later sc i src_regs_i (j + 1)
        else do {
          out \<leftarrow> war_sources sc i j dest_reg_j src_regs_i;
          rest \<leftarrow> war_later sc i src_regs_i (j + 1);
          Some (out @ rest)
        }
      }
      else Some [])"
  by pat_completeness auto
termination
  by (relation "measure (\<lambda>(sc, i, src_regs_i, j). length (parsed_instructions sc) - j)") auto

declare war_later.simps [simp del]

function war_earlier :: "scanner \<Rightarrow> nat \<Rightarrow> report_item list option" where
  "war_earlier sc i =
     (if i < length (parsed_instructions sc)
      then do {
        src_regs_i \<leftarrow> get_source_registers sc i;
        if src_regs_i = [] then war_earlier sc (i + 1)
        else do {
          out \<leftarrow> war_later sc i src_regs_i (i + 1);
          rest \<leftarrow> war_earlier sc (i + 1);
          Some (out @ rest)
        }
      }
      else Some [])"
  by pat_completeness auto
termination
  by (relation "measure (\<lambda>(sc, i). length (parsed_instructions sc) - i)") auto

declare war_earlier.simps [simp del]

definition find_WAR_dependencies :: "scanner \<Rightarrow> (report_item list \<times> scanner) option" where
  "find_WAR_dependencies sc =
     (if parsed_instructions sc = [] then Some ([Heading WAR, No_Instructions], sc)
      else do {
        out \<leftarrow> war_earlier sc 0;
        Some (Heading WAR # out @ [Complete], sc)
      })"

subsection \<open>WAW\<close>

function waw_later :: "scanner \<Rightarrow> nat \<Rightarrow> string \<Rightarrow> nat \<Rightarrow> report_item list option" where
  "waw_later sc i dest_reg_i j =
     (if j < length (parsed_instructions sc)
      then do {
        dest_reg_j \<leftarrow> get_destination_register sc j;
        out \<leftarrow> (if dest_reg_i = dest_reg_j
                then do {
                  ti \<leftarrow> vec_at (instructions sc) i;
                  tj \<leftarrow> vec_at (instructions sc) j;
                  Some [Found WAW i ti dest_reg_i j tj dest_reg_j]
                }
                else Some []);
        rest \<leftarrow> waw_later sc i dest_reg_i (j + 1);
        Some (out @ rest)
      }
      else Some [])"
  by pat_completeness auto
termination
  by (relation "measure (\<lambda>(sc, i, dest_reg_i, j). length (parsed_instructions sc) - j)") auto

declare waw_later.simps [simp del]

function waw_earlier :: "scanner \<Rightarrow> nat \<Rightarrow> report_item list option" where
  "waw_earlier sc i =
     (if i < length (parsed_instructions sc)
      then do {
        dest_reg_i \<leftarrow> get_destination_register sc i;
        if dest_reg_i = [] then waw_earlier sc (i + 1)
        else do {
          out \<leftarrow> waw_later sc i dest_reg_i (i + 1);
          rest \<leftarrow> waw_earlier sc (i + 1);
          Some (out @ rest)
        }
      }
      else Some [])"
  by pat_completeness auto
termination
  by (relation "measure (\<lambda>(sc, i). length (parsed_instructions sc) - i)") auto

declare waw_earlier.simps [simp del]

definition find_WAW_dependencies :: "scanner \<Rightarrow> (report_item list \<times> scanner) option" where
  "find_WAW_dependencies sc =
     (if parsed_instructions sc = [] then Some ([Heading WAW, No_Instructions], sc)
      else do {
        out \<leftarrow> waw_earlier sc 0;
        Some (Heading WAW # out @ [Complete], sc)
      })"

subsection \<open>Calling the scans one after the other\<close>

text \<open>
  A caller invokes the three public scans in any order and any number of times on one
  scanner object; each call starts from the scanner the previous call left.
\<close>

fun scan :: "hazard \<Rightarrow> scanner \<Rightarrow> (report_item list \<times> scanner) option" where
  "scan RAW sc = find_RAW_dependencies sc"
| "scan WAR sc = find_WAR_dependencies sc"
| "scan WAW sc = find_WAW_dependencies sc"

fun run_scans :: "hazard list \<Rightarrow> scanner \<Rightarrow> (report_item list list \<times> scanner) option" where
  "run_scans [] sc = Some ([], sc)"
| "run_scans (k # ks) sc =
     (case scan k sc of
        None \<Rightarrow> None
      | Some (out, sc') \<Rightarrow>
          (case run_scans ks sc' of
             None \<Rightarrow> None
           | Some (outs, sc'') \<Rightarrow> Some (out # outs, sc'')))"

section \<open>The decoder and the scans in the words of the specification\<close>

text \<open>
  \<open>tokenize\<close>: each of the four delimiters becomes a space, the text is split on runs of
  white space, and each token is trimmed. \<open>split_words cur s\<close> reads \<open>s\<close> from left to
  right with the characters of the current word in \<open>cur\<close>.
\<close>

definition delimiter :: "char \<Rightarrow> bool" where
  "delimiter c = (c \<in> set '',;()'')"

fun split_words :: "string \<Rightarrow> string \<Rightarrow> string list" where
  "split_words cur [] = (if cur = [] then [] else [cur])"
| "split_words cur (c # s) =
     (if isspace c
      then (if cur = [] then split_words [] s else cur # split_words [] s)
      else split_words (cur @ [c]) s)"

definition tokenize :: "string \<Rightarrow> string list" where
  "tokenize raw = map trim (split_words [] (map (\<lambda>c. if delimiter c then CHR '' '' else c) raw))"

text \<open>
  An input mentions an opcode when the name of an opcode of the table occurs somewhere
  in its text, in upper or lower case.
\<close>

definition opcode_names :: "string list" where
  "opcode_names =
     [''ADD'', ''ADDI'', ''SUB'', ''MUL'', ''DIV'', ''LD'', ''SD'', ''DADD'', ''DADDI'', ''DSUB'',
      ''DMUL'', ''DDIV'', ''SLT'', ''SGT'', ''BEQ'', ''BNE'', ''BLTZ'', ''BGTZ'', ''BGEZ'', ''BLEZ'']"

fun starts_with :: "string \<Rightarrow> string \<Rightarrow> bool" where
  "starts_with [] s = True"
| "starts_with (c # p) [] = False"
| "starts_with (c # p) (d # s) = (c = d \<and> starts_with p s)"

fun occurs_in :: "string \<Rightarrow> string \<Rightarrow> bool" where
  "occurs_in p [] = (p = [])"
| "occurs_in p (c # s) = (starts_with p (c # s) \<or> occurs_in p s)"

definition mentions_opcode :: "string \<Rightarrow> bool" where
  "mentions_opcode raw = list_ex (\<lambda>name. occurs_in name (to_upper raw)) opcode_names"

text \<open>
  The opcode table of the specification: for each opcode the destination slot, if any,
  and the source slots in their declared order.
\<close>

definition opcode_table :: "string \<rightharpoonup> nat option \<times> nat list" where
  "opcode_table opcode =
     (if opcode \<in> set [''ADD'', ''SUB'', ''MUL'', ''DIV'', ''DADD'', ''DSUB'', ''DMUL'',
                        ''DDIV'', ''SLT'', ''SGT'']
      then Some (Some 1, [2, 3])
      else if opcode \<in> set [''ADDI'', ''DADDI''] then Some (Some 1, [2])
      else if opcode = ''LD'' then Some (Some 1, [])
      else if opcode = ''SD'' then Some (None, [1, 3])
      else if opcode \<in> set [''BEQ'', ''BNE'', ''BLTZ'', ''BGTZ'', ''BGEZ'', ''BLEZ'']
      then Some (None, [1, 2])
      else None)"

text \<open>
  \<open>destination_register\<close>: the token at the destination slot, unless the opcode is not in
  the table, the slot is "none" or the slot is out of bounds. \<open>source_registers\<close>: the
  tokens at the source slots that are within bounds, in the declared order.
\<close>

definition destination_register :: "string list \<Rightarrow> string option" where
  "destination_register tokens =
     (case tokens of
        [] \<Rightarrow> None
      | opcode # operands \<Rightarrow>
          (case opcode_table (to_upper opcode) of
             None \<Rightarrow> None
           | Some (None, source_slots) \<Rightarrow> None
           | Some (Some slot, source_slots) \<Rightarrow>
               if slot < length tokens then Some (tokens ! slot) else None))"

definition source_registers :: "string list \<Rightarrow> string list" where
  "source_registers tokens =
     (case tokens of
        [] \<Rightarrow> []
      | opcode # operands \<Rightarrow>
          (case opcode_table (to_upper opcode) of
             None \<Rightarrow> []
           | Some (destination_slot, source_slots) \<Rightarrow>
               [tokens ! slot. slot \<leftarrow> source_slots, slot < length tokens]))"

text \<open>An absent register as the source returns it: the empty string.\<close>

definition register_string :: "string option \<Rightarrow> string" where
  "register_string reg = (case reg of None \<Rightarrow> [] | Some r \<Rightarrow> r)"

text \<open>
  The records \<open>(i, j, register)\<close> of the three scans over the token sequences of the
  instructions, in the order in which they are emitted.
\<close>

definition raw_records :: "string list list \<Rightarrow> (nat \<times> nat \<times> string) list" where
  "raw_records ps =
     [(i, j, r). i \<leftarrow> [0..<length ps], j \<leftarrow> [Suc i..<length ps],
                 r \<leftarrow> source_registers (ps ! j), destination_register (ps ! i) = Some r]"

definition war_records :: "string list list \<Rightarrow> (nat \<times> nat \<times> string) list" where
  "war_records ps =
     [(i, j, r). i \<leftarrow> [0..<length ps], j \<leftarrow> [Suc i..<length ps],
                 r \<leftarrow> source_registers (ps ! i), destination_register (ps ! j) = Some r]"

definition waw_records :: "string list list \<Rightarrow> (nat \<times> nat \<times> string) list" where
  "waw_records ps =
     [(i, j, register_string (destination_register (ps ! i))).
        i \<leftarrow> [0..<length ps], j \<leftarrow> [Suc i..<length ps],
        destination_register (ps ! i) \<noteq> None,
        destination_register (ps ! j) = destination_register (ps ! i)]"

text \<open>The report item of a record: both instructions are printed with the register.\<close>

definition found :: "hazard \<Rightarrow> string list \<Rightarrow> nat \<times> nat \<times> string \<Rightarrow> report_item" where
  "found k insts rec =
     (case rec of (i, j, r) \<Rightarrow> Found k i (insts ! i) r j (insts ! j) r)"

text \<open>
  The report of a scan of the instructions \<open>insts\<close> that finds the records \<open>recs\<close>: the
  heading, then either the message that there is nothing to analyze, or the
  dependencies and the closing line.
\<close>

definition report ::
  "hazard \<Rightarrow> string list \<Rightarrow> (nat \<times> nat \<times> string) list \<Rightarrow> report_item list" where
  "report k insts recs =
     Heading k #
     (if insts = [] then [No_Instructions] else map (found k insts) recs @ [Complete])"

text \<open>The pairs of indices of the dependencies of a report, in order.\<close>

fun index_pairs :: "report_item list \<Rightarrow> (nat \<times> nat) list" where
  "index_pairs [] = []"
| "index_pairs (Found k i ti ri j tj rj # items) = (i, j) # index_pairs items"
| "index_pairs (item # items) = index_pairs items"

definition pair_le :: "nat \<times> nat \<Rightarrow> nat \<times> nat \<Rightarrow> bool" where
  "pair_le a b = (fst a < fst b \<or> (fst a = fst b \<and> snd a \<le> snd b))"

text \<open>
  The three scans are one traversal of the ordered pairs of instructions, with the
  registers that an earlier and a later token sequence have in conflict as a parameter.
\<close>

definition pair_records ::
  "(string list \<Rightarrow> string list \<Rightarrow> string list) \<Rightarrow> string list list
   \<Rightarrow> (nat \<times> nat \<times> string) list" where
  "pair_records conflict ps =
     [(i, j, r). i \<leftarrow> [0..<length ps], j \<leftarrow> [Suc i..<length ps],
                 r \<leftarrow> conflict (ps ! i) (ps ! j)]"

definition raw_registers :: "string list \<Rightarrow> string list \<Rightarrow> string list" where
  "raw_registers earlier later =
     filter (\<lambda>r. destination_register earlier = Some r) (source_registers later)"

definition war_registers :: "string list \<Rightarrow> string list \<Rightarrow> string list" where
  "war_registers earlier later =
     filter (\<lambda>r. destination_register later = Some r) (source_registers earlier)"

definition waw_registers :: "string list \<Rightarrow> string list \<Rightarrow> string list" where
  "waw_registers earlier later =
     (case destination_register earlier of
        None \<Rightarrow> []
      | Some r \<Rightarrow> if destination_register later = Some r then [r] else [])"

fun hazard_registers :: "hazard \<Rightarrow> string list \<Rightarrow> string list \<Rightarrow> string list" where
  "hazard_registers RAW = raw_registers"
| "hazard_registers WAR = war_registers"
| "hazard_registers WAW = waw_registers"

text \<open>
  The dependencies of a report, and a report with the indices from \<open>k\<close> on moved up by
  one, as when an instruction is put in at index \<open>k\<close>.
\<close>

fun is_dependency :: "report_item \<Rightarrow> bool" where
  "is_dependency (Found h i ti ri j tj rj) = True"
| "is_dependency item = False"

definition dependencies :: "report_item list \<Rightarrow> report_item list" where
  "dependencies items = filter is_dependency items"

definition bump :: "nat \<Rightarrow> nat \<Rightarrow> nat" where
  "bump k i = (if i < k then i else Suc i)"

definition shift_record :: "nat \<Rightarrow> nat \<times> nat \<times> string \<Rightarrow> nat \<times> nat \<times> string" where
  "shift_record k rec = (case rec of (i, j, r) \<Rightarrow> (bump k i, bump k j, r))"

fun shift_item :: "nat \<Rightarrow> report_item \<Rightarrow> report_item" where
  "shift_item k (Found h i ti ri j tj rj) = Found h (bump k i) ti ri (bump k j) tj rj"
| "shift_item k item = item"

section \<open>Properties of the tokenizer\<close>

lemma find_first_not_of_Some:
  "find_first_not_of s cs = Some k \<Longrightarrow> k < length s \<and> s ! k \<notin> set cs"
  by (induction s arbitrary: k) (auto split: if_splits)

lemma find_first_not_of_None:
  "find_first_not_of s cs = None \<longleftrightarrow> set s \<subseteq> set cs"
  by (induction s) auto

lemma find_first_not_of_least:
  "find_first_not_of s cs = Some k \<Longrightarrow> i < k \<Longrightarrow> s ! i \<in> set cs"
  by (induction s arbitrary: k i) (auto split: if_splits simp: nth_Cons')

lemma find_last_after_first:
  assumes "find_first_not_of s cs = Some f"
  shows "\<exists>l. find_last_not_of s cs = Some l \<and> f \<le> l \<and> l < length s"
proof -
  from assms have f: "f < length s" "s ! f \<notin> set cs"
    by (auto dest: find_first_not_of_Some)
  then have "\<not> set (rev s) \<subseteq> set cs"
    by (metis nth_mem set_rev subsetD)
  then obtain k where k: "find_first_not_of (rev s) cs = Some k"
    using find_first_not_of_None [of "rev s" cs] by (cases "find_first_not_of (rev s) cs") auto
  then have kl: "k < length s" and knot: "rev s ! k \<notin> set cs"
    by (auto dest: find_first_not_of_Some)
  have "f \<le> length s - 1 - k"
  proof (rule ccontr)
    assume "\<not> f \<le> length s - 1 - k"
    then have lt: "length s - 1 - k < f" by simp
    from kl have "rev s ! k = s ! (length s - 1 - k)"
      by (simp add: rev_nth)
    with knot have "s ! (length s - 1 - k) \<notin> set cs" by simp
    with find_first_not_of_least [OF assms lt] show False by simp
  qed
  with k kl show ?thesis
    by (auto simp: find_last_not_of_def)
qed

lemma trim_chars_isspace: "c \<in> set trim_chars \<Longrightarrow> isspace c"
  by (auto simp: trim_chars_def isspace_def)

lemma trim_token:
  assumes "p \<noteq> []" and "\<forall>c\<in>set p. \<not> isspace c"
  shows "trim p = p"
proof -
  from assms obtain c q where p: "p = c # q" by (cases p) auto
  with assms have "c \<notin> set trim_chars"
    by (auto dest: trim_chars_isspace)
  then have first: "find_first_not_of p trim_chars = Some 0"
    by (simp add: p)
  from assms obtain q' x where px: "p = q' @ [x]"
    by (cases p rule: rev_cases) auto
  with assms have "x \<notin> set trim_chars"
    by (auto dest: trim_chars_isspace)
  then have "find_first_not_of (rev p) trim_chars = Some 0"
    by (simp add: px)
  then have "find_last_not_of p trim_chars = Some (length p - 1)"
    by (simp add: find_last_not_of_def)
  with first assms show ?thesis
    by (simp add: trim_def substr_def)
qed

lemma stream_extract_token:
  assumes "stream_extract s = Some (p, rest)"
  shows "p \<noteq> [] \<and> (\<forall>c\<in>set p. \<not> isspace c)"
proof -
  let ?s' = "dropWhile isspace s"
  from assms have ne: "?s' \<noteq> []" and p: "p = takeWhile (\<lambda>c. \<not> isspace c) ?s'"
    by (auto simp: stream_extract_def Let_def split: if_splits)
  from ne have "\<not> isspace (hd ?s')"
    by (simp add: hd_dropWhile)
  with ne have "p \<noteq> []"
    unfolding p by (cases ?s') auto
  moreover have "\<forall>c\<in>set p. \<not> isspace c"
    unfolding p by (auto dest: set_takeWhileD)
  ultimately show ?thesis by simp
qed

lemma read_parts_tokens:
  "t \<in> set (read_parts s) \<Longrightarrow> t \<noteq> [] \<and> (\<forall>c\<in>set t. \<not> isspace c)"
proof (induction s rule: read_parts.induct)
  case (1 s)
  show ?case
  proof (cases "stream_extract s")
    case None
    with "1.prems" show ?thesis by (simp add: read_parts.simps)
  next
    case (Some pr)
    obtain p rest where pr: "pr = (p, rest)" by (cases pr)
    from Some pr have tok: "p \<noteq> [] \<and> (\<forall>c\<in>set p. \<not> isspace c)"
      by (auto dest: stream_extract_token)
    then have tr: "trim p = p" by (simp add: trim_token)
    from "1.prems" Some pr have "t = trim p \<or> t \<in> set (read_parts rest)"
      by (subst (asm) read_parts.simps) auto
    then show ?thesis
    proof
      assume "t = trim p"
      with tr tok show ?thesis by simp
    next
      assume "t \<in> set (read_parts rest)"
      with "1.IH" Some pr show ?thesis by simp
    qed
  qed
qed

lemma parse_instruction_token_nonempty:
  "t \<in> set (parse_instruction inst) \<Longrightarrow> t \<noteq> []"
  by (auto simp: parse_instruction_def dest: read_parts_tokens)

lemma parse_all_eq: "parse_all insts parsed = parsed @ map parse_instruction insts"
  by (induction insts arbitrary: parsed) auto

lemma parsed_Dependency_Identifier [simp]:
  "parsed_instructions (Dependency_Identifier insts) = map parse_instruction insts"
  by (simp add: Dependency_Identifier_def parse_all_eq)

lemma instructions_Dependency_Identifier [simp]:
  "instructions (Dependency_Identifier insts) = insts"
  by (simp add: Dependency_Identifier_def)

lemma operand_map_Dependency_Identifier [simp]:
  "operand_map (Dependency_Identifier insts) = initial_operand_map"
  by (simp add: Dependency_Identifier_def)

section \<open>Properties of the operand reads\<close>

lemma to_size_t_int [simp]: "to_size_t (int n) = n mod 2 ^ 64"
  by (simp add: to_size_t_def nat_mod_distrib nat_power_eq)

lemma initial_operand_map_table:
  "initial_operand_map opcode =
     map_option (\<lambda>(d, ss). (case d of None \<Rightarrow> 0 | Some k \<Rightarrow> int k, map int ss))
       (opcode_table opcode)"
  by (simp add: initial_operand_map_def opcode_table_def)


lemma vec_at_Some [simp]: "i < length xs \<Longrightarrow> vec_at xs i = Some (xs ! i)"
  by (simp add: vec_at_def)

lemma push_sources_eq:
  "push_sources parts slots acc =
     Some (acc @ [parts ! to_size_t s. s \<leftarrow> slots, 0 < s \<and> to_size_t s < length parts])"
  by (induction slots arbitrary: acc) auto

lemma get_destination_register_total:
  "\<exists>r. get_destination_register sc index = Some r"
  by (cases "parsed_instructions sc ! index")
    (auto simp: get_destination_register_def split: option.splits)

lemma get_source_registers_total:
  "\<exists>rs. get_source_registers sc index = Some rs"
  by (cases "parsed_instructions sc ! index")
    (auto simp: get_source_registers_def push_sources_eq split: option.splits)

lemma get_destination_register_outside:
  "length (parsed_instructions sc) \<le> index \<or> parsed_instructions sc ! index = []
   \<Longrightarrow> get_destination_register sc index = Some []"
  by (auto simp: get_destination_register_def)

lemma get_source_registers_outside:
  "length (parsed_instructions sc) \<le> index \<or> parsed_instructions sc ! index = []
   \<Longrightarrow> get_source_registers sc index = Some []"
  by (auto simp: get_source_registers_def)

lemma to_size_t_small [simp]: "to_size_t 1 = 1" "to_size_t 2 = 2" "to_size_t 3 = 3"
  by (simp_all add: to_size_t_def)

lemma opcode_table_cases:
  "opcode_table opcode = None \<or> opcode_table opcode = Some (Some 1, [2, 3])
   \<or> opcode_table opcode = Some (Some 1, [2]) \<or> opcode_table opcode = Some (Some 1, [])
   \<or> opcode_table opcode = Some (None, [1, 3]) \<or> opcode_table opcode = Some (None, [1, 2])"
  unfolding opcode_table_def by presburger

lemma opcode_table_dest:
  "opcode_table opcode = Some (d, ss) \<Longrightarrow> d = None \<or> d = Some 1"
  using opcode_table_cases [of opcode] by auto

lemma opcode_table_sources:
  "opcode_table opcode = Some (d, ss) \<Longrightarrow> set ss \<subseteq> {1, 2, 3}"
  using opcode_table_cases [of opcode] by auto

lemma get_destination_register_spec:
  assumes "operand_map sc = initial_operand_map"
    and "index < length (parsed_instructions sc)"
  shows "get_destination_register sc index =
         Some (register_string (destination_register (parsed_instructions sc ! index)))"
proof (cases "parsed_instructions sc ! index")
  case Nil
  with assms show ?thesis
    by (simp add: get_destination_register_def destination_register_def register_string_def)
next
  case (Cons opcode operands)
  show ?thesis
  proof (cases "opcode_table (to_upper opcode)")
    case None
    with assms Cons show ?thesis
      by (simp add: get_destination_register_def destination_register_def register_string_def
          initial_operand_map_table)
  next
    case (Some entry)
    obtain d ss where entry: "entry = (d, ss)" by (cases entry)
    from Some entry have "d = None \<or> d = Some 1"
      using opcode_table_dest by blast
    with assms Cons Some entry show ?thesis
      by (auto simp: get_destination_register_def destination_register_def register_string_def
          initial_operand_map_table)
  qed
qed

lemma map_filter_slots:
  assumes "set ss \<subseteq> {1, 2, 3}"
  shows "[parts ! to_size_t s. s \<leftarrow> map int ss, 0 < s \<and> to_size_t s < length parts] =
         [parts ! s. s \<leftarrow> ss, s < length parts]"
  using assms by (induction ss) auto

lemma get_source_registers_spec:
  assumes "operand_map sc = initial_operand_map"
    and "index < length (parsed_instructions sc)"
  shows "get_source_registers sc index =
         Some (source_registers (parsed_instructions sc ! index))"
proof (cases "parsed_instructions sc ! index")
  case Nil
  with assms show ?thesis
    by (simp add: get_source_registers_def source_registers_def)
next
  case (Cons opcode operands)
  show ?thesis
  proof (cases "opcode_table (to_upper opcode)")
    case None
    with assms Cons show ?thesis
      by (simp add: get_source_registers_def source_registers_def initial_operand_map_table)
  next
    case (Some entry)
    obtain d ss where entry: "entry = (d, ss)" by (cases entry)
    from Some entry have "set ss \<subseteq> {1, 2, 3}"
      using opcode_table_sources by blast
    then have "[(opcode # operands) ! to_size_t s. s \<leftarrow> map int ss,
                  0 < s \<and> to_size_t s < length (opcode # operands)] =
               [(opcode # operands) ! s. s \<leftarrow> ss, s < length (opcode # operands)]"
      by (rule map_filter_slots)
    with assms Cons Some entry show ?thesis
      by (simp add: get_source_registers_def source_registers_def initial_operand_map_table
          push_sources_eq)
  qed
qed

lemma destination_register_in_tokens:
  assumes "destination_register tokens = Some r"
  shows "r \<in> set tokens"
proof -
  from assms have "\<exists>slot. slot < length tokens \<and> r = tokens ! slot"
    by (cases tokens) (auto simp: destination_register_def split: option.splits if_splits)
  then show ?thesis by auto
qed

lemma source_registers_in_tokens:
  assumes "r \<in> set (source_registers tokens)"
  shows "r \<in> set tokens"
proof -
  from assms have "\<exists>slot. slot < length tokens \<and> r = tokens ! slot"
    by (cases tokens) (auto simp: source_registers_def split: option.splits if_splits)
  then show ?thesis by auto
qed

lemma register_string_empty:
  assumes "\<forall>t\<in>set tokens. t \<noteq> []"
  shows "register_string (destination_register tokens) = [] \<longleftrightarrow> destination_register tokens = None"
  using assms destination_register_in_tokens [of tokens]
  by (cases "destination_register tokens") (auto simp: register_string_def)

text \<open>
  C10: both reads return a value for every scanner and every index, that is, no vector
  access of theirs is out of range; for an index past the last instruction, and for an
  instruction with no token, they return the empty string and the empty sequence.
\<close>

theorem operand_reads_in_bounds:
  "(\<exists>r. get_destination_register sc index = Some r)
   \<and> (\<exists>rs. get_source_registers sc index = Some rs)
   \<and> (length (parsed_instructions sc) \<le> index \<longrightarrow>
        get_destination_register sc index = Some [] \<and> get_source_registers sc index = Some [])
   \<and> (index < length (parsed_instructions sc) \<and> parsed_instructions sc ! index = [] \<longrightarrow>
        get_destination_register sc index = Some [] \<and> get_source_registers sc index = Some [])"
  using get_destination_register_total [of sc index] get_source_registers_total [of sc index]
    get_destination_register_outside [of sc index] get_source_registers_outside [of sc index]
  by blast

theorem operand_reads_in_bounds_witness:
  "length (parsed_instructions (Dependency_Identifier [''ADD R1, R2, R3'', '' ; ''])) \<le> 2
   \<and> get_destination_register (Dependency_Identifier [''ADD R1, R2, R3'', '' ; '']) 2 = Some []
   \<and> get_source_registers (Dependency_Identifier [''ADD R1, R2, R3'', '' ; '']) 2 = Some []
   \<and> 1 < length (parsed_instructions (Dependency_Identifier [''ADD R1, R2, R3'', '' ; '']))
   \<and> parsed_instructions (Dependency_Identifier [''ADD R1, R2, R3'', '' ; '']) ! 1 = []
   \<and> get_destination_register (Dependency_Identifier [''ADD R1, R2, R3'', '' ; '']) 1 = Some []
   \<and> get_source_registers (Dependency_Identifier [''ADD R1, R2, R3'', '' ; '']) 1 = Some []"
proof -
  let ?sc = "Dependency_Identifier [''ADD R1, R2, R3'', '' ; '']"
  have len: "length (parsed_instructions ?sc) = 2" by simp
  have "parse_instruction '' ; '' = []" by code_simp
  then have empty: "parsed_instructions ?sc ! 1 = []" by simp
  from len empty operand_reads_in_bounds [of ?sc 2] operand_reads_in_bounds [of ?sc 1]
  show ?thesis by simp
qed

text \<open>
  C5: with the opcode table of the constructor, the destination read of the source is
  \<open>destination_register\<close> on the token sequence of the instruction, an absent register
  being returned as the empty string. When no token is empty, as for every parsed
  instruction, the empty string is returned only for an absent register. The token is
  returned as it is written, the opcode is matched in upper case.
\<close>

theorem get_destination_register_refines:
  assumes "operand_map sc = initial_operand_map"
    and "index < length (parsed_instructions sc)"
  shows "get_destination_register sc index =
           Some (register_string (destination_register (parsed_instructions sc ! index)))
         \<and> ((\<forall>t\<in>set (parsed_instructions sc ! index). t \<noteq> []) \<longrightarrow>
              (get_destination_register sc index = Some [] \<longleftrightarrow>
               destination_register (parsed_instructions sc ! index) = None))
         \<and> destination_register [] = None
         \<and> destination_register (parse_instruction ''ADD R1, R2, R3'') = Some ''R1''
         \<and> destination_register (parse_instruction ''SD R1, 0(R3)'') = None
         \<and> destination_register (parse_instruction ''add r1, R2, R3'') = Some ''r1''
         \<and> destination_register (parse_instruction ''ADD'') = None
         \<and> destination_register (parse_instruction ''FOO R1, R2, R3'') = None"
proof -
  have 1: "get_destination_register sc index =
           Some (register_string (destination_register (parsed_instructions sc ! index)))"
    using assms by (rule get_destination_register_spec)
  have 2: "(\<forall>t\<in>set (parsed_instructions sc ! index). t \<noteq> []) \<longrightarrow>
              (get_destination_register sc index = Some [] \<longleftrightarrow>
               destination_register (parsed_instructions sc ! index) = None)"
    using 1 register_string_empty [of "parsed_instructions sc ! index"] by simp
  have 3: "destination_register [] = None"
    by (simp add: destination_register_def)
  have 4: "destination_register (parse_instruction ''ADD R1, R2, R3'') = Some ''R1''"
    by code_simp
  have 5: "destination_register (parse_instruction ''SD R1, 0(R3)'') = None"
    by code_simp
  have 6: "destination_register (parse_instruction ''add r1, R2, R3'') = Some ''r1''"
    by code_simp
  have 7: "destination_register (parse_instruction ''ADD'') = None"
    by code_simp
  have 8: "destination_register (parse_instruction ''FOO R1, R2, R3'') = None"
    by code_simp
  from 1 2 3 4 5 6 7 8 show ?thesis by blast
qed

theorem get_destination_register_refines_witness:
  "operand_map (Dependency_Identifier [''ADD R1, R2, R3'', ''SD R1, 0(R3)'']) = initial_operand_map
   \<and> 0 < length (parsed_instructions (Dependency_Identifier [''ADD R1, R2, R3'', ''SD R1, 0(R3)'']))
   \<and> 1 < length (parsed_instructions (Dependency_Identifier [''ADD R1, R2, R3'', ''SD R1, 0(R3)'']))
   \<and> parsed_instructions (Dependency_Identifier [''ADD R1, R2, R3'', ''SD R1, 0(R3)'']) ! 1
       = [''SD'', ''R1'', ''0'', ''R3'']
   \<and> get_destination_register (Dependency_Identifier [''ADD R1, R2, R3'', ''SD R1, 0(R3)'']) 0
       = Some ''R1''
   \<and> get_destination_register (Dependency_Identifier [''ADD R1, R2, R3'', ''SD R1, 0(R3)'']) 1
       = Some []
   \<and> destination_register
        (parsed_instructions (Dependency_Identifier [''ADD R1, R2, R3'', ''SD R1, 0(R3)'']) ! 1)
       = None"
proof -
  let ?sc = "Dependency_Identifier [''ADD R1, R2, R3'', ''SD R1, 0(R3)'']"
  have p0: "parse_instruction ''ADD R1, R2, R3'' = [''ADD'', ''R1'', ''R2'', ''R3'']"
    by code_simp
  have p1: "parse_instruction ''SD R1, 0(R3)'' = [''SD'', ''R1'', ''0'', ''R3'']"
    by code_simp
  have d0: "destination_register [''ADD'', ''R1'', ''R2'', ''R3''] = Some ''R1''"
    by code_simp
  have d1: "destination_register [''SD'', ''R1'', ''0'', ''R3''] = None"
    by code_simp
  from get_destination_register_refines [of ?sc 0] get_destination_register_refines [of ?sc 1]
    p0 p1 d0 d1
  show ?thesis by (simp add: register_string_def)
qed

text \<open>
  C6: with the opcode table of the constructor, the source read of the source is
  \<open>source_registers\<close> on the token sequence of the instruction: the tokens at the source
  slots that are within bounds, in the declared order, the other slots being skipped.
\<close>

theorem get_source_registers_refines:
  assumes "operand_map sc = initial_operand_map"
    and "index < length (parsed_instructions sc)"
  shows "get_source_registers sc index =
           Some (source_registers (parsed_instructions sc ! index))
         \<and> source_registers [] = []
         \<and> source_registers (parse_instruction ''SD R1, 0(R3)'') = [''R1'', ''R3'']
         \<and> source_registers (parse_instruction ''LD R1, 0(R2)'') = []
         \<and> source_registers (parse_instruction ''ADD R1, R2'') = [''R2'']
         \<and> source_registers (parse_instruction ''sub R1, r2, R3'') = [''r2'', ''R3'']
         \<and> source_registers (parse_instruction ''FOO R1, R2, R3'') = []"
proof -
  have 1: "get_source_registers sc index =
           Some (source_registers (parsed_instructions sc ! index))"
    using assms by (rule get_source_registers_spec)
  have 2: "source_registers [] = []"
    by (simp add: source_registers_def)
  have 3: "source_registers (parse_instruction ''SD R1, 0(R3)'') = [''R1'', ''R3'']"
    by code_simp
  have 4: "source_registers (parse_instruction ''LD R1, 0(R2)'') = []"
    by code_simp
  have 5: "source_registers (parse_instruction ''ADD R1, R2'') = [''R2'']"
    by code_simp
  have 6: "source_registers (parse_instruction ''sub R1, r2, R3'') = [''r2'', ''R3'']"
    by code_simp
  have 7: "source_registers (parse_instruction ''FOO R1, R2, R3'') = []"
    by code_simp
  from 1 2 3 4 5 6 7 show ?thesis by blast
qed

theorem get_source_registers_refines_witness:
  "operand_map (Dependency_Identifier [''SD R1, 0(R3)'', ''ADD R1, R2'']) = initial_operand_map
   \<and> 0 < length (parsed_instructions (Dependency_Identifier [''SD R1, 0(R3)'', ''ADD R1, R2'']))
   \<and> 1 < length (parsed_instructions (Dependency_Identifier [''SD R1, 0(R3)'', ''ADD R1, R2'']))
   \<and> get_source_registers (Dependency_Identifier [''SD R1, 0(R3)'', ''ADD R1, R2'']) 0
       = Some [''R1'', ''R3'']
   \<and> get_source_registers (Dependency_Identifier [''SD R1, 0(R3)'', ''ADD R1, R2'']) 1
       = Some [''R2'']"
proof -
  let ?sc = "Dependency_Identifier [''SD R1, 0(R3)'', ''ADD R1, R2'']"
  have p0: "parse_instruction ''SD R1, 0(R3)'' = [''SD'', ''R1'', ''0'', ''R3'']"
    by code_simp
  have p1: "parse_instruction ''ADD R1, R2'' = [''ADD'', ''R1'', ''R2'']"
    by code_simp
  have s0: "source_registers [''SD'', ''R1'', ''0'', ''R3''] = [''R1'', ''R3'']"
    by code_simp
  have s1: "source_registers [''ADD'', ''R1'', ''R2''] = [''R2'']"
    by code_simp
  from get_source_registers_refines [of ?sc 0] get_source_registers_refines [of ?sc 1]
    p0 p1 s0 s1
  show ?thesis by simp
qed

section \<open>The loops of the scans\<close>

lemma concat_map_if_filter:
  "concat (map (\<lambda>x. if P x then [f x] else []) xs) = map f (filter P xs)"
  by (induction xs) auto

lemma raw_sources_eq:
  assumes "i < length (instructions sc)" and "j < length (instructions sc)"
  shows "raw_sources sc i d j srcs =
         Some (map (\<lambda>r. Found RAW i (instructions sc ! i) d j (instructions sc ! j) d)
                 (filter (\<lambda>r. r = d) srcs))"
  using assms by (induction srcs) auto

lemma war_sources_eq:
  assumes "i < length (instructions sc)" and "j < length (instructions sc)"
  shows "war_sources sc i j d srcs =
         Some (map (\<lambda>r. Found WAR i (instructions sc ! i) r j (instructions sc ! j) d)
                 (filter (\<lambda>r. r = d) srcs))"
  using assms by (induction srcs) auto

text \<open>Scanners as the constructor leaves them.\<close>

lemma raw_later_eq:
  assumes "operand_map sc = initial_operand_map"
    and "length (instructions sc) = length (parsed_instructions sc)"
    and "i < length (parsed_instructions sc)"
  shows "raw_later sc i d j =
         Some (concat (map (\<lambda>j. map (\<lambda>r. Found RAW i (instructions sc ! i) d j (instructions sc ! j) d)
                       (filter (\<lambda>r. r = d) (source_registers (parsed_instructions sc ! j))))
                 [j..<length (parsed_instructions sc)]))"
  using assms
proof (induction sc i d j rule: raw_later.induct)
  case (1 sc i d j)
  show ?case
  proof (cases "j < length (parsed_instructions sc)")
    case True
    then have upt: "[j..<length (parsed_instructions sc)] = j # [Suc j..<length (parsed_instructions sc)]"
      by (simp add: upt_conv_Cons)
    from True 1 show ?thesis
      by (subst raw_later.simps)
        (simp add: upt get_source_registers_spec raw_sources_eq)
  next
    case False
    then show ?thesis by (subst raw_later.simps) simp
  qed
qed


lemma raw_earlier_eq:
  assumes "operand_map sc = initial_operand_map"
    and "length (instructions sc) = length (parsed_instructions sc)"
  shows "raw_earlier sc i =
         Some (concat (map (\<lambda>i.
           if register_string (destination_register (parsed_instructions sc ! i)) = [] then []
           else concat (map (\<lambda>j. map (\<lambda>r. Found RAW i (instructions sc ! i)
                   (register_string (destination_register (parsed_instructions sc ! i)))
                   j (instructions sc ! j)
                   (register_string (destination_register (parsed_instructions sc ! i))))
                 (filter (\<lambda>r. r = register_string (destination_register (parsed_instructions sc ! i)))
                   (source_registers (parsed_instructions sc ! j))))
               [Suc i..<length (parsed_instructions sc)]))
           [i..<length (parsed_instructions sc)]))"
  using assms
proof (induction sc i rule: raw_earlier.induct)
  case (1 sc i)
  show ?case
  proof (cases "i < length (parsed_instructions sc)")
    case True
    then have upt: "[i..<length (parsed_instructions sc)] = i # [Suc i..<length (parsed_instructions sc)]"
      by (simp add: upt_conv_Cons)
    from True 1 show ?thesis
      by (subst raw_earlier.simps)
        (simp add: upt get_destination_register_spec raw_later_eq)
  next
    case False
    then show ?thesis by (subst raw_earlier.simps) simp
  qed
qed


lemma war_later_eq:
  assumes "operand_map sc = initial_operand_map"
    and "length (instructions sc) = length (parsed_instructions sc)"
    and "i < length (parsed_instructions sc)"
  shows "war_later sc i srcs j =
         Some (concat (map (\<lambda>j.
           if register_string (destination_register (parsed_instructions sc ! j)) = [] then []
           else map (\<lambda>r. Found WAR i (instructions sc ! i) r j (instructions sc ! j)
                     (register_string (destination_register (parsed_instructions sc ! j))))
                  (filter (\<lambda>r. r = register_string (destination_register (parsed_instructions sc ! j)))
                     srcs))
           [j..<length (parsed_instructions sc)]))"
  using assms
proof (induction sc i srcs j rule: war_later.induct)
  case (1 sc i srcs j)
  show ?case
  proof (cases "j < length (parsed_instructions sc)")
    case True
    then have upt: "[j..<length (parsed_instructions sc)] = j # [Suc j..<length (parsed_instructions sc)]"
      by (simp add: upt_conv_Cons)
    from True 1 show ?thesis
      by (subst war_later.simps)
        (simp add: upt get_destination_register_spec war_sources_eq)
  next
    case False
    then show ?thesis by (subst war_later.simps) simp
  qed
qed

lemma war_earlier_eq:
  assumes "operand_map sc = initial_operand_map"
    and "length (instructions sc) = length (parsed_instructions sc)"
  shows "war_earlier sc i =
         Some (concat (map (\<lambda>i.
           if source_registers (parsed_instructions sc ! i) = [] then []
           else concat (map (\<lambda>j.
             if register_string (destination_register (parsed_instructions sc ! j)) = [] then []
             else map (\<lambda>r. Found WAR i (instructions sc ! i) r j (instructions sc ! j)
                       (register_string (destination_register (parsed_instructions sc ! j))))
                    (filter (\<lambda>r. r = register_string (destination_register (parsed_instructions sc ! j)))
                       (source_registers (parsed_instructions sc ! i))))
             [Suc i..<length (parsed_instructions sc)]))
           [i..<length (parsed_instructions sc)]))"
  using assms
proof (induction sc i rule: war_earlier.induct)
  case (1 sc i)
  show ?case
  proof (cases "i < length (parsed_instructions sc)")
    case True
    then have upt: "[i..<length (parsed_instructions sc)] = i # [Suc i..<length (parsed_instructions sc)]"
      by (simp add: upt_conv_Cons)
    from True 1 show ?thesis
      by (subst war_earlier.simps)
        (simp add: upt get_source_registers_spec war_later_eq)
  next
    case False
    then show ?thesis by (subst war_earlier.simps) simp
  qed
qed

lemma waw_later_eq:
  assumes "operand_map sc = initial_operand_map"
    and "length (instructions sc) = length (parsed_instructions sc)"
    and "i < length (parsed_instructions sc)"
  shows "waw_later sc i d j =
         Some (concat (map (\<lambda>j.
           if d = register_string (destination_register (parsed_instructions sc ! j))
           then [Found WAW i (instructions sc ! i) d j (instructions sc ! j)
                   (register_string (destination_register (parsed_instructions sc ! j)))]
           else [])
           [j..<length (parsed_instructions sc)]))"
proof (induction "length (parsed_instructions sc) - j" arbitrary: j)
  case 0
  then show ?case by (subst waw_later.simps) simp
next
  case (Suc m)
  then have lt: "j < length (parsed_instructions sc)"
    and m: "m = length (parsed_instructions sc) - Suc j"
    by simp_all
  from lt have upt: "[j..<length (parsed_instructions sc)] = j # [Suc j..<length (parsed_instructions sc)]"
    by (simp add: upt_conv_Cons)
  from Suc.hyps(1) [OF m] lt assms show ?case
    by (subst waw_later.simps)
      (simp add: upt get_destination_register_spec)
qed

lemma waw_earlier_eq:
  assumes "operand_map sc = initial_operand_map"
    and "length (instructions sc) = length (parsed_instructions sc)"
  shows "waw_earlier sc i =
         Some (concat (map (\<lambda>i.
           if register_string (destination_register (parsed_instructions sc ! i)) = [] then []
           else concat (map (\<lambda>j.
             if register_string (destination_register (parsed_instructions sc ! i))
                = register_string (destination_register (parsed_instructions sc ! j))
             then [Found WAW i (instructions sc ! i)
                     (register_string (destination_register (parsed_instructions sc ! i)))
                     j (instructions sc ! j)
                     (register_string (destination_register (parsed_instructions sc ! j)))]
             else [])
             [Suc i..<length (parsed_instructions sc)]))
           [i..<length (parsed_instructions sc)]))"
  using assms
proof (induction sc i rule: waw_earlier.induct)
  case (1 sc i)
  show ?case
  proof (cases "i < length (parsed_instructions sc)")
    case True
    then have upt: "[i..<length (parsed_instructions sc)] = i # [Suc i..<length (parsed_instructions sc)]"
      by (simp add: upt_conv_Cons)
    from True 1 show ?thesis
      by (subst waw_earlier.simps)
        (simp add: upt get_destination_register_spec waw_later_eq)
  next
    case False
    then show ?thesis by (subst waw_earlier.simps) simp
  qed
qed

lemma raw_records_pair: "raw_records ps = pair_records raw_registers ps"
  by (simp add: raw_records_def pair_records_def raw_registers_def concat_map_if_filter)

lemma war_records_pair: "war_records ps = pair_records war_registers ps"
  by (simp add: war_records_def pair_records_def war_registers_def concat_map_if_filter)

lemma waw_records_pair: "waw_records ps = pair_records waw_registers ps"
proof -
  have "(if destination_register a \<noteq> None
         then if destination_register b = destination_register a
              then [(i, j, register_string (destination_register a))] else []
         else []) = map (\<lambda>r. (i, j, r)) (waw_registers a b)" for a b :: "string list" and i j :: nat
    by (cases "destination_register a") (auto simp: waw_registers_def register_string_def)
  then show ?thesis
    by (simp add: waw_records_def pair_records_def)
qed

lemma map_filter_same:
  "map (\<lambda>r. f d) (filter (\<lambda>r. r = d) xs) = map f (filter (\<lambda>r. d = r) xs)"
  by (induction xs) auto

lemma raw_row:
  assumes "\<forall>t\<in>set a. t \<noteq> []"
  shows "(if register_string (destination_register a) = [] then []
          else concat (map (\<lambda>j. map (\<lambda>r. Found RAW i ti (register_string (destination_register a))
                                  j (tx j) (register_string (destination_register a)))
                 (filter (\<lambda>r. r = register_string (destination_register a))
                    (source_registers (ps ! j)))) js))
         = concat (map (\<lambda>j. map (\<lambda>r. Found RAW i ti r j (tx j) r)
                          (raw_registers a (ps ! j))) js)"
proof (cases "destination_register a")
  case None
  then show ?thesis by (simp add: register_string_def raw_registers_def)
next
  case (Some d)
  with assms have "d \<noteq> []"
    by (auto dest: destination_register_in_tokens)
  with Some show ?thesis
    by (simp add: register_string_def raw_registers_def
        map_filter_same [where f = "\<lambda>r. Found RAW i ti r j (tx j) r" for j])
qed


lemma nth_tokens_nonempty:
  assumes "\<forall>p\<in>set ps. \<forall>t\<in>set p. t \<noteq> []" and "i < length ps"
  shows "\<forall>t\<in>set (ps ! i). t \<noteq> []"
  using assms nth_mem by blast

lemma map_filter_same2:
  "map (\<lambda>r. g r d) (filter (\<lambda>r. r = d) xs) = map (\<lambda>r. g r r) (filter (\<lambda>r. d = r) xs)"
  by (induction xs) auto

lemma war_cell:
  assumes "\<forall>t\<in>set b. t \<noteq> []"
  shows "(if register_string (destination_register b) = [] then []
          else map (\<lambda>r. Found WAR i ti r j tj (register_string (destination_register b)))
                 (filter (\<lambda>r. r = register_string (destination_register b)) srcs))
         = map (\<lambda>r. Found WAR i ti r j tj r)
             (filter (\<lambda>r. destination_register b = Some r) srcs)"
proof (cases "destination_register b")
  case None
  then show ?thesis by (simp add: register_string_def)
next
  case (Some d)
  with assms have "d \<noteq> []"
    by (auto dest: destination_register_in_tokens)
  with Some show ?thesis
    by (simp add: register_string_def
        map_filter_same2 [where g = "\<lambda>r d. Found WAR i ti r j tj d"])
qed

lemma waw_cell:
  assumes "destination_register a = Some d" and "d \<noteq> []"
  shows "(if register_string (destination_register a) = register_string (destination_register b)
          then [Found WAW i ti (register_string (destination_register a)) j tj
                  (register_string (destination_register b))]
          else [])
         = map (\<lambda>r. Found WAW i ti r j tj r) (waw_registers a b)"
  using assms
  by (cases "destination_register b") (auto simp: register_string_def waw_registers_def)

lemma raw_earlier_records:
  assumes om: "operand_map sc = initial_operand_map"
    and len: "length (instructions sc) = length (parsed_instructions sc)"
    and ne: "\<forall>p\<in>set (parsed_instructions sc). \<forall>t\<in>set p. t \<noteq> []"
  shows "raw_earlier sc 0 =
         Some (map (found RAW (instructions sc)) (raw_records (parsed_instructions sc)))"
proof -
  let ?ps = "parsed_instructions sc" and ?ins = "instructions sc"
  let ?n = "length ?ps"
  let ?row = "\<lambda>i. concat (map (\<lambda>j. map (\<lambda>r. Found RAW i (?ins ! i) r j (?ins ! j) r)
                          (raw_registers (?ps ! i) (?ps ! j))) [Suc i..<?n])"
  let ?code = "\<lambda>i. if register_string (destination_register (?ps ! i)) = [] then []
          else concat (map (\<lambda>j. map (\<lambda>r. Found RAW i (?ins ! i) (register_string (destination_register (?ps ! i)))
                                  j (?ins ! j) (register_string (destination_register (?ps ! i))))
                 (filter (\<lambda>r. r = register_string (destination_register (?ps ! i)))
                    (source_registers (?ps ! j)))) [Suc i..<?n])"
  have spec: "map (found RAW ?ins) (raw_records ?ps) = concat (map ?row [0..<?n])"
    by (simp add: raw_records_pair pair_records_def found_def map_concat comp_def)
  have rows: "map ?code [0..<?n] = map ?row [0..<?n]"
  proof (rule map_cong [OF refl])
    fix i assume "i \<in> set [0..<?n]"
    then have "i < ?n" by simp
    with ne have "\<forall>t\<in>set (?ps ! i). t \<noteq> []"
      by (rule nth_tokens_nonempty)
    then show "?code i = ?row i"
      by (rule raw_row [where a = "?ps ! i" and tx = "\<lambda>j. ?ins ! j" and ps = ?ps])
  qed
  from rows have "concat (map ?code [0..<?n]) = map (found RAW ?ins) (raw_records ?ps)"
    by (simp only: spec)
  moreover have "raw_earlier sc 0 = Some (concat (map ?code [0..<?n]))"
    by (rule raw_earlier_eq [OF om len])
  ultimately show ?thesis by (simp only:)
qed

lemma war_earlier_records:
  assumes om: "operand_map sc = initial_operand_map"
    and len: "length (instructions sc) = length (parsed_instructions sc)"
    and ne: "\<forall>p\<in>set (parsed_instructions sc). \<forall>t\<in>set p. t \<noteq> []"
  shows "war_earlier sc 0 =
         Some (map (found WAR (instructions sc)) (war_records (parsed_instructions sc)))"
proof -
  let ?ps = "parsed_instructions sc" and ?ins = "instructions sc"
  let ?n = "length ?ps"
  let ?cell = "\<lambda>i j. map (\<lambda>r. Found WAR i (?ins ! i) r j (?ins ! j) r)
                          (war_registers (?ps ! i) (?ps ! j))"
  let ?row = "\<lambda>i. concat (map (?cell i) [Suc i..<?n])"
  let ?ccell = "\<lambda>i j. if register_string (destination_register (?ps ! j)) = [] then []
             else map (\<lambda>r. Found WAR i (?ins ! i) r j (?ins ! j)
                       (register_string (destination_register (?ps ! j))))
                    (filter (\<lambda>r. r = register_string (destination_register (?ps ! j)))
                       (source_registers (?ps ! i)))"
  let ?code = "\<lambda>i. if source_registers (?ps ! i) = [] then []
           else concat (map (?ccell i) [Suc i..<?n])"
  have spec: "map (found WAR ?ins) (war_records ?ps) = concat (map ?row [0..<?n])"
    by (simp add: war_records_pair pair_records_def found_def map_concat comp_def)
  have rows: "map ?code [0..<?n] = map ?row [0..<?n]"
  proof (rule map_cong [OF refl])
    fix i assume "i \<in> set [0..<?n]"
    have cells: "map (?ccell i) [Suc i..<?n] = map (?cell i) [Suc i..<?n]"
    proof (rule map_cong [OF refl])
      fix j assume "j \<in> set [Suc i..<?n]"
      then have "j < ?n" by simp
      with ne have "\<forall>t\<in>set (?ps ! j). t \<noteq> []"
        by (rule nth_tokens_nonempty)
      then show "?ccell i j = ?cell i j"
        unfolding war_registers_def by (rule war_cell)
    qed
    show "?code i = ?row i"
    proof (cases "source_registers (?ps ! i) = []")
      case True
      then show ?thesis by (simp add: war_registers_def)
    next
      case False
      then have "?code i = concat (map (?ccell i) [Suc i..<?n])"
        by simp
      also have "\<dots> = ?row i"
        by (simp only: cells)
      finally show ?thesis .
    qed
  qed
  from rows have "concat (map ?code [0..<?n]) = map (found WAR ?ins) (war_records ?ps)"
    by (simp only: spec)
  moreover have "war_earlier sc 0 = Some (concat (map ?code [0..<?n]))"
    by (rule war_earlier_eq [OF om len])
  ultimately show ?thesis by (simp only:)
qed

lemma waw_earlier_records:
  assumes om: "operand_map sc = initial_operand_map"
    and len: "length (instructions sc) = length (parsed_instructions sc)"
    and ne: "\<forall>p\<in>set (parsed_instructions sc). \<forall>t\<in>set p. t \<noteq> []"
  shows "waw_earlier sc 0 =
         Some (map (found WAW (instructions sc)) (waw_records (parsed_instructions sc)))"
proof -
  let ?ps = "parsed_instructions sc" and ?ins = "instructions sc"
  let ?n = "length ?ps"
  let ?cell = "\<lambda>i j. map (\<lambda>r. Found WAW i (?ins ! i) r j (?ins ! j) r)
                          (waw_registers (?ps ! i) (?ps ! j))"
  let ?row = "\<lambda>i. concat (map (?cell i) [Suc i..<?n])"
  let ?d = "\<lambda>i. register_string (destination_register (?ps ! i))"
  let ?ccell = "\<lambda>i j. if ?d i = ?d j
             then [Found WAW i (?ins ! i) (?d i) j (?ins ! j) (?d j)]
             else []"
  let ?code = "\<lambda>i. if ?d i = [] then [] else concat (map (?ccell i) [Suc i..<?n])"
  have spec: "map (found WAW ?ins) (waw_records ?ps) = concat (map ?row [0..<?n])"
    by (simp add: waw_records_pair pair_records_def found_def map_concat comp_def)
  have rows: "map ?code [0..<?n] = map ?row [0..<?n]"
  proof (rule map_cong [OF refl])
    fix i assume "i \<in> set [0..<?n]"
    then have i: "i < ?n" by simp
    show "?code i = ?row i"
    proof (cases "destination_register (?ps ! i)")
      case None
      then show ?thesis by (simp add: register_string_def waw_registers_def)
    next
      case (Some d)
      from ne i have "\<forall>t\<in>set (?ps ! i). t \<noteq> []"
        by (rule nth_tokens_nonempty)
      with Some have dne: "d \<noteq> []"
        by (auto dest: destination_register_in_tokens)
      have cells: "map (?ccell i) [Suc i..<?n] = map (?cell i) [Suc i..<?n]"
      proof (rule map_cong [OF refl])
        fix j assume "j \<in> set [Suc i..<?n]"
        from Some dne show "?ccell i j = ?cell i j"
          by (rule waw_cell)
      qed
      from Some dne have "?code i = concat (map (?ccell i) [Suc i..<?n])"
        by (simp add: register_string_def)
      also have "\<dots> = ?row i"
        by (simp only: cells)
      finally show ?thesis .
    qed
  qed
  from rows have "concat (map ?code [0..<?n]) = map (found WAW ?ins) (waw_records ?ps)"
    by (simp only: spec)
  moreover have "waw_earlier sc 0 = Some (concat (map ?code [0..<?n]))"
    by (rule waw_earlier_eq [OF om len])
  ultimately show ?thesis by (simp only:)
qed

section \<open>Properties of the records\<close>

lemma count_list_concat:
  "count_list (concat xss) x = sum_list (map (\<lambda>xs. count_list xs x) xss)"
  by (induction xss) auto

lemma sum_list_single_upt:
  "sum_list (map (\<lambda>k. if k = j then c k else 0) [a..<b]) =
     (if a \<le> j \<and> j < b then c j else (0::nat))"
  by (induction b) auto

lemma count_list_map_triple:
  "count_list (map (\<lambda>r. (i', j', r)) xs) (i, j, r) =
     (if i' = i \<and> j' = j then count_list xs r else 0)"
  by (induction xs) auto

lemma count_pair_records:
  "count_list (pair_records conflict ps) (i, j, r) =
     (if i < j \<and> j < length ps then count_list (conflict (ps ! i) (ps ! j)) r else 0)"
proof -
  let ?n = "length ps"
  have cell: "count_list (map (\<lambda>r. (i', j', r)) (conflict (ps ! i') (ps ! j'))) (i, j, r) =
      (if j' = j then (if i' = i then count_list (conflict (ps ! i) (ps ! j)) r else 0) else 0)"
    for i' j'
    by (simp add: count_list_map_triple)
  have row: "count_list (concat (map (\<lambda>j'. map (\<lambda>r. (i', j', r)) (conflict (ps ! i') (ps ! j')))
                 [Suc i'..<?n])) (i, j, r) =
      (if i' = i then (if Suc i \<le> j \<and> j < ?n then count_list (conflict (ps ! i) (ps ! j)) r else 0)
       else 0)" for i'
    by (simp add: count_list_concat comp_def cell sum_list_single_upt)
  let ?rowf = "\<lambda>i'. concat (map (\<lambda>j'. map (\<lambda>r. (i', j', r)) (conflict (ps ! i') (ps ! j')))
                 [Suc i'..<?n])"
  let ?c = "\<lambda>i'. if Suc i' \<le> j \<and> j < ?n then count_list (conflict (ps ! i') (ps ! j)) r else 0"
  have "count_list (concat (map ?rowf [0..<?n])) (i, j, r) =
        sum_list (map (\<lambda>i'. count_list (?rowf i') (i, j, r)) [0..<?n])"
    by (rule trans [OF count_list_concat]) (simp only: map_map comp_def)
  also have "\<dots> = sum_list (map (\<lambda>i'. if i' = i then ?c i' else 0) [0..<?n])"
    by (rule arg_cong [where f = sum_list], rule map_cong [OF refl]) (simp add: row)
  also have "\<dots> = (if 0 \<le> i \<and> i < ?n then ?c i else 0)"
    by (rule sum_list_single_upt)
  finally have "count_list (pair_records conflict ps) (i, j, r) =
      (if 0 \<le> i \<and> i < ?n then ?c i else 0)"
    by (simp add: pair_records_def)
  then show ?thesis by auto
qed

lemma in_pair_records:
  "(i, j, r) \<in> set (pair_records conflict ps) \<longleftrightarrow>
     i < j \<and> j < length ps \<and> r \<in> set (conflict (ps ! i) (ps ! j))"
proof -
  have "(i, j, r) \<in> set (pair_records conflict ps) \<longleftrightarrow>
        count_list (pair_records conflict ps) (i, j, r) \<noteq> 0"
    by (simp add: count_list_0_iff)
  also have "\<dots> \<longleftrightarrow> i < j \<and> j < length ps \<and> count_list (conflict (ps ! i) (ps ! j)) r \<noteq> 0"
    by (auto simp: count_pair_records)
  also have "\<dots> \<longleftrightarrow> i < j \<and> j < length ps \<and> r \<in> set (conflict (ps ! i) (ps ! j))"
    by (simp add: count_list_0_iff)
  finally show ?thesis .
qed

lemma sorted_wrt_concat_map:
  assumes "\<forall>x\<in>set xs. sorted_wrt R (f x)"
    and "sorted_wrt (\<lambda>x y. \<forall>a\<in>set (f x). \<forall>b\<in>set (f y). R a b) xs"
  shows "sorted_wrt R (concat (map f xs))"
  using assms by (induction xs) (auto simp: sorted_wrt_append)

lemma sorted_pair_records:
  "sorted_wrt pair_le (map (\<lambda>(i, j, r). (i, j)) (pair_records conflict ps))"
proof -
  let ?n = "length ps"
  let ?cell = "\<lambda>i j. map (\<lambda>r. (i, j)) (conflict (ps ! i) (ps ! j))"
  let ?row = "\<lambda>i. concat (map (?cell i) [Suc i..<?n])"
  have eq: "map (\<lambda>(i, j, r). (i, j)) (pair_records conflict ps) = concat (map ?row [0..<?n])"
    by (simp add: pair_records_def map_concat comp_def)
  have less: "sorted_wrt (<) [a..<b]" for a b :: nat
    by (simp add: sorted_wrt_iff_nth_less)
  have row: "sorted_wrt pair_le (?row i)" for i
  proof (rule sorted_wrt_concat_map)
    show "\<forall>j\<in>set [Suc i..<?n]. sorted_wrt pair_le (?cell i j)"
      by (simp add: sorted_wrt_iff_nth_less pair_le_def)
    show "sorted_wrt (\<lambda>x y. \<forall>a\<in>set (?cell i x). \<forall>b\<in>set (?cell i y). pair_le a b) [Suc i..<?n]"
      by (rule sorted_wrt_mono_rel [OF _ less]) (auto simp: pair_le_def)
  qed
  have "sorted_wrt pair_le (concat (map ?row [0..<?n]))"
  proof (rule sorted_wrt_concat_map)
    show "\<forall>i\<in>set [0..<?n]. sorted_wrt pair_le (?row i)"
      using row by simp
    show "sorted_wrt (\<lambda>x y. \<forall>a\<in>set (?row x). \<forall>b\<in>set (?row y). pair_le a b) [0..<?n]"
      by (rule sorted_wrt_mono_rel [OF _ less]) (auto simp: pair_le_def)
  qed
  with eq show ?thesis by simp
qed

lemma tokens_nonempty_constructed:
  "\<forall>p\<in>set (parsed_instructions (Dependency_Identifier insts)). \<forall>t\<in>set p. t \<noteq> []"
  by (auto dest: parse_instruction_token_nonempty)

lemma length_constructed:
  "length (instructions (Dependency_Identifier insts)) =
   length (parsed_instructions (Dependency_Identifier insts))"
  by simp

lemma find_RAW_report:
  "find_RAW_dependencies (Dependency_Identifier insts) =
     Some (report RAW insts (raw_records (map parse_instruction insts)),
           Dependency_Identifier insts)"
  using raw_earlier_records [OF operand_map_Dependency_Identifier length_constructed
      tokens_nonempty_constructed, of insts]
  by (simp add: find_RAW_dependencies_def report_def)

lemma find_WAR_report:
  "find_WAR_dependencies (Dependency_Identifier insts) =
     Some (report WAR insts (war_records (map parse_instruction insts)),
           Dependency_Identifier insts)"
  using war_earlier_records [OF operand_map_Dependency_Identifier length_constructed
      tokens_nonempty_constructed, of insts]
  by (simp add: find_WAR_dependencies_def report_def)

lemma find_WAW_report:
  "find_WAW_dependencies (Dependency_Identifier insts) =
     Some (report WAW insts (waw_records (map parse_instruction insts)),
           Dependency_Identifier insts)"
  using waw_earlier_records [OF operand_map_Dependency_Identifier length_constructed
      tokens_nonempty_constructed, of insts]
  by (simp add: find_WAW_dependencies_def report_def)

lemma pair_records_Nil [simp]: "pair_records conflict [] = []"
  by (simp add: pair_records_def)

lemma index_pairs_found:
  "index_pairs (map (found k insts) recs @ items) =
     map (\<lambda>(i, j, r). (i, j)) recs @ index_pairs items"
  by (induction recs) (auto simp: found_def)

lemma index_pairs_report:
  "index_pairs (report k insts (pair_records conflict (map parse_instruction insts))) =
     map (\<lambda>(i, j, r). (i, j)) (pair_records conflict (map parse_instruction insts))"
  by (simp add: report_def index_pairs_found)

lemma count_list_found:
  "count_list (map (found k insts) recs) (found k insts (i, j, r)) = count_list recs (i, j, r)"
  by (induction recs) (auto simp: found_def)

lemma count_list_report:
  "count_list (report k insts (pair_records conflict (map parse_instruction insts)))
      (found k insts (i, j, r)) =
     count_list (pair_records conflict (map parse_instruction insts)) (i, j, r)"
proof (cases "insts = []")
  case True
  then show ?thesis by (simp add: report_def found_def)
next
  case False
  have "Complete \<noteq> found k insts (i, j, r)" and "Heading k \<noteq> found k insts (i, j, r)"
    by (simp_all add: found_def)
  with False show ?thesis
    by (simp add: report_def count_list_found)
qed

lemma count_list_filter:
  "count_list (filter P xs) x = (if P x then count_list xs x else 0)"
  by (induction xs) auto

lemma count_raw_registers:
  "count_list (raw_registers a b) r =
     (if destination_register a = Some r then count_list (source_registers b) r else 0)"
  by (simp add: raw_registers_def count_list_filter)

lemma count_war_registers:
  "count_list (war_registers a b) r =
     (if destination_register b = Some r then count_list (source_registers a) r else 0)"
  by (simp add: war_registers_def count_list_filter)

lemma count_waw_registers:
  "count_list (waw_registers a b) r =
     (if destination_register a = Some r \<and> destination_register b = Some r then 1 else 0)"
  by (cases "destination_register a") (auto simp: waw_registers_def)

section \<open>The reports of the scans\<close>

lemma in_index_pairs_report:
  "(i, j) \<in> set (index_pairs (report k insts (pair_records conflict (map parse_instruction insts))))
   \<longleftrightarrow> i < j \<and> j < length insts
       \<and> conflict (parse_instruction (insts ! i)) (parse_instruction (insts ! j)) \<noteq> []"
proof -
  let ?recs = "pair_records conflict (map parse_instruction insts)"
  have "(i, j) \<in> set (index_pairs (report k insts ?recs)) \<longleftrightarrow> (\<exists>r. (i, j, r) \<in> set ?recs)"
    by (force simp: index_pairs_report)
  also have "\<dots> \<longleftrightarrow> i < j \<and> j < length insts
       \<and> (\<exists>r. r \<in> set (conflict (parse_instruction (insts ! i)) (parse_instruction (insts ! j))))"
    by (auto simp: in_pair_records)
  also have "\<dots> \<longleftrightarrow> i < j \<and> j < length insts
       \<and> conflict (parse_instruction (insts ! i)) (parse_instruction (insts ! j)) \<noteq> []"
    by (simp add: ex_in_conv)
  finally show ?thesis .
qed

text \<open>
  C1: the RAW scan of a constructed scanner returns the heading, the records of
  \<open>raw_records\<close> in their order and the closing line (or the message for no instruction),
  and leaves the scanner as it was. The record \<open>(i, j, r)\<close> is in the report as many times
  as \<open>r\<close> is among the source registers of instruction \<open>j\<close> when \<open>i < j\<close> and \<open>r\<close> is the
  destination register of instruction \<open>i\<close>, and not at all otherwise; the records are in
  ascending order of \<open>i\<close>, then of \<open>j\<close>.
\<close>

theorem find_RAW_dependencies_records:
  "\<exists>out. find_RAW_dependencies (Dependency_Identifier insts)
            = Some (out, Dependency_Identifier insts)
     \<and> out = report RAW insts (raw_records (map parse_instruction insts))
     \<and> (\<forall>i j r. count_list out (found RAW insts (i, j, r)) =
          (if i < j \<and> j < length insts
              \<and> destination_register (parse_instruction (insts ! i)) = Some r
           then count_list (source_registers (parse_instruction (insts ! j))) r
           else 0))
     \<and> sorted_wrt pair_le (index_pairs out)"
proof -
  let ?out = "report RAW insts (raw_records (map parse_instruction insts))"
  have "\<forall>i j r. count_list ?out (found RAW insts (i, j, r)) =
          (if i < j \<and> j < length insts
              \<and> destination_register (parse_instruction (insts ! i)) = Some r
           then count_list (source_registers (parse_instruction (insts ! j))) r
           else 0)"
    by (auto simp: raw_records_pair count_list_report count_pair_records count_raw_registers)
  moreover have "sorted_wrt pair_le (index_pairs ?out)"
    by (simp add: raw_records_pair index_pairs_report sorted_pair_records)
  ultimately show ?thesis
    using find_RAW_report [of insts] by blast
qed

theorem find_RAW_dependencies_records_witness:
  "find_RAW_dependencies (Dependency_Identifier [''ADD R1, R2, R3'', ''SUB R4, R1, R5''])
     = Some ([Heading RAW,
              Found RAW 0 ''ADD R1, R2, R3'' ''R1'' 1 ''SUB R4, R1, R5'' ''R1'',
              Complete],
             Dependency_Identifier [''ADD R1, R2, R3'', ''SUB R4, R1, R5''])
   \<and> find_RAW_dependencies (Dependency_Identifier [''add R1, R2, R3'', ''MUL R4, R1, R1'', ''SD r1, 0(R1)''])
     = Some ([Heading RAW,
              Found RAW 0 ''add R1, R2, R3'' ''R1'' 1 ''MUL R4, R1, R1'' ''R1'',
              Found RAW 0 ''add R1, R2, R3'' ''R1'' 1 ''MUL R4, R1, R1'' ''R1'',
              Found RAW 0 ''add R1, R2, R3'' ''R1'' 2 ''SD r1, 0(R1)'' ''R1'',
              Complete],
             Dependency_Identifier [''add R1, R2, R3'', ''MUL R4, R1, R1'', ''SD r1, 0(R1)''])"
proof -
  have 1: "report RAW [''ADD R1, R2, R3'', ''SUB R4, R1, R5'']
             (raw_records (map parse_instruction [''ADD R1, R2, R3'', ''SUB R4, R1, R5'']))
           = [Heading RAW,
              Found RAW 0 ''ADD R1, R2, R3'' ''R1'' 1 ''SUB R4, R1, R5'' ''R1'',
              Complete]"
    by code_simp
  have 2: "report RAW [''add R1, R2, R3'', ''MUL R4, R1, R1'', ''SD r1, 0(R1)'']
             (raw_records (map parse_instruction [''add R1, R2, R3'', ''MUL R4, R1, R1'', ''SD r1, 0(R1)'']))
           = [Heading RAW,
              Found RAW 0 ''add R1, R2, R3'' ''R1'' 1 ''MUL R4, R1, R1'' ''R1'',
              Found RAW 0 ''add R1, R2, R3'' ''R1'' 1 ''MUL R4, R1, R1'' ''R1'',
              Found RAW 0 ''add R1, R2, R3'' ''R1'' 2 ''SD r1, 0(R1)'' ''R1'',
              Complete]"
    by code_simp
  from find_RAW_dependencies_records [of "[''ADD R1, R2, R3'', ''SUB R4, R1, R5'']"]
    find_RAW_dependencies_records [of "[''add R1, R2, R3'', ''MUL R4, R1, R1'', ''SD r1, 0(R1)'']"]
  show ?thesis
    unfolding 1 2 by blast
qed

text \<open>
  C2: the WAR scan of a constructed scanner returns the heading, the records of
  \<open>war_records\<close> in their order and the closing line (or the message for no instruction),
  and leaves the scanner as it was. The record \<open>(i, j, r)\<close> is in the report as many times
  as \<open>r\<close> is among the source registers of instruction \<open>i\<close> when \<open>i < j\<close> and \<open>r\<close> is the
  destination register of instruction \<open>j\<close>, and not at all otherwise; an instruction with
  no source register is the earlier side of no record; the records are in ascending
  order of \<open>i\<close>, then of \<open>j\<close>.
\<close>

theorem find_WAR_dependencies_records:
  "\<exists>out. find_WAR_dependencies (Dependency_Identifier insts)
            = Some (out, Dependency_Identifier insts)
     \<and> out = report WAR insts (war_records (map parse_instruction insts))
     \<and> (\<forall>i j r. count_list out (found WAR insts (i, j, r)) =
          (if i < j \<and> j < length insts
              \<and> destination_register (parse_instruction (insts ! j)) = Some r
           then count_list (source_registers (parse_instruction (insts ! i))) r
           else 0))
     \<and> (\<forall>i j. source_registers (parse_instruction (insts ! i)) = []
            \<longrightarrow> (i, j) \<notin> set (index_pairs out))
     \<and> sorted_wrt pair_le (index_pairs out)"
proof -
  let ?out = "report WAR insts (war_records (map parse_instruction insts))"
  have "\<forall>i j r. count_list ?out (found WAR insts (i, j, r)) =
          (if i < j \<and> j < length insts
              \<and> destination_register (parse_instruction (insts ! j)) = Some r
           then count_list (source_registers (parse_instruction (insts ! i))) r
           else 0)"
    by (auto simp: war_records_pair count_list_report count_pair_records count_war_registers)
  moreover have "\<forall>i j. source_registers (parse_instruction (insts ! i)) = []
            \<longrightarrow> (i, j) \<notin> set (index_pairs ?out)"
    by (simp add: war_records_pair in_index_pairs_report war_registers_def)
  moreover have "sorted_wrt pair_le (index_pairs ?out)"
    by (simp add: war_records_pair index_pairs_report sorted_pair_records)
  ultimately show ?thesis
    using find_WAR_report [of insts] by blast
qed

theorem find_WAR_dependencies_records_witness:
  "find_WAR_dependencies (Dependency_Identifier [''ADD R1, R2, R3'', ''SUB R2, R4, R5''])
     = Some ([Heading WAR,
              Found WAR 0 ''ADD R1, R2, R3'' ''R2'' 1 ''SUB R2, R4, R5'' ''R2'',
              Complete],
             Dependency_Identifier [''ADD R1, R2, R3'', ''SUB R2, R4, R5''])
   \<and> source_registers (parse_instruction ([''LD R1, 0(R2)'', ''MUL R4, R4, R1'', ''ADD R4, R5, R6''] ! 0)) = []
   \<and> find_WAR_dependencies (Dependency_Identifier [''LD R1, 0(R2)'', ''MUL R4, R4, R1'', ''ADD R4, R5, R6''])
     = Some ([Heading WAR,
              Found WAR 1 ''MUL R4, R4, R1'' ''R4'' 2 ''ADD R4, R5, R6'' ''R4'',
              Complete],
             Dependency_Identifier [''LD R1, 0(R2)'', ''MUL R4, R4, R1'', ''ADD R4, R5, R6''])
   \<and> (0, 1) \<notin> set (index_pairs [Heading WAR,
              Found WAR 1 ''MUL R4, R4, R1'' ''R4'' 2 ''ADD R4, R5, R6'' ''R4'',
              Complete])"
proof -
  have 1: "report WAR [''ADD R1, R2, R3'', ''SUB R2, R4, R5'']
             (war_records (map parse_instruction [''ADD R1, R2, R3'', ''SUB R2, R4, R5'']))
           = [Heading WAR,
              Found WAR 0 ''ADD R1, R2, R3'' ''R2'' 1 ''SUB R2, R4, R5'' ''R2'',
              Complete]"
    by code_simp
  have 2: "report WAR [''LD R1, 0(R2)'', ''MUL R4, R4, R1'', ''ADD R4, R5, R6'']
             (war_records (map parse_instruction [''LD R1, 0(R2)'', ''MUL R4, R4, R1'', ''ADD R4, R5, R6'']))
           = [Heading WAR,
              Found WAR 1 ''MUL R4, R4, R1'' ''R4'' 2 ''ADD R4, R5, R6'' ''R4'',
              Complete]"
    by code_simp
  have 3: "source_registers (parse_instruction ([''LD R1, 0(R2)'', ''MUL R4, R4, R1'', ''ADD R4, R5, R6''] ! 0)) = []"
    by code_simp
  from find_WAR_dependencies_records [of "[''ADD R1, R2, R3'', ''SUB R2, R4, R5'']"]
    find_WAR_dependencies_records [of "[''LD R1, 0(R2)'', ''MUL R4, R4, R1'', ''ADD R4, R5, R6'']"] 3
  show ?thesis
    unfolding 1 2 by blast
qed

text \<open>
  C3: the WAW scan of a constructed scanner returns the heading, the records of
  \<open>waw_records\<close> in their order and the closing line (or the message for no instruction),
  and leaves the scanner as it was. The record \<open>(i, j, r)\<close> is in the report once when
  \<open>i < j\<close> and \<open>r\<close> is the destination register of both instructions, and not at all
  otherwise; every pair of indices of the report has \<open>i < j\<close>, and both instructions have
  a destination register, the same one; the records are in ascending order of \<open>i\<close>, then
  of \<open>j\<close>.
\<close>

theorem find_WAW_dependencies_records:
  "\<exists>out. find_WAW_dependencies (Dependency_Identifier insts)
            = Some (out, Dependency_Identifier insts)
     \<and> out = report WAW insts (waw_records (map parse_instruction insts))
     \<and> (\<forall>i j r. count_list out (found WAW insts (i, j, r)) =
          (if i < j \<and> j < length insts
              \<and> destination_register (parse_instruction (insts ! i)) = Some r
              \<and> destination_register (parse_instruction (insts ! j)) = Some r
           then 1 else 0))
     \<and> (\<forall>i j. (i, j) \<in> set (index_pairs out) \<longrightarrow>
            i < j \<and> j < length insts
            \<and> destination_register (parse_instruction (insts ! i)) \<noteq> None
            \<and> destination_register (parse_instruction (insts ! j))
                = destination_register (parse_instruction (insts ! i)))
     \<and> sorted_wrt pair_le (index_pairs out)"
proof -
  let ?out = "report WAW insts (waw_records (map parse_instruction insts))"
  have "\<forall>i j r. count_list ?out (found WAW insts (i, j, r)) =
          (if i < j \<and> j < length insts
              \<and> destination_register (parse_instruction (insts ! i)) = Some r
              \<and> destination_register (parse_instruction (insts ! j)) = Some r
           then 1 else 0)"
    by (auto simp: waw_records_pair count_list_report count_pair_records count_waw_registers)
  moreover have "\<forall>i j. (i, j) \<in> set (index_pairs ?out) \<longrightarrow>
            i < j \<and> j < length insts
            \<and> destination_register (parse_instruction (insts ! i)) \<noteq> None
            \<and> destination_register (parse_instruction (insts ! j))
                = destination_register (parse_instruction (insts ! i))"
    by (auto simp: waw_records_pair in_index_pairs_report waw_registers_def
        split: option.splits if_splits)
  moreover have "sorted_wrt pair_le (index_pairs ?out)"
    by (simp add: waw_records_pair index_pairs_report sorted_pair_records)
  ultimately show ?thesis
    using find_WAW_report [of insts] by blast
qed

theorem find_WAW_dependencies_records_witness:
  "find_WAW_dependencies (Dependency_Identifier [''ADD R1, R2, R3'', ''MUL R1, R4, R5''])
     = Some ([Heading WAW,
              Found WAW 0 ''ADD R1, R2, R3'' ''R1'' 1 ''MUL R1, R4, R5'' ''R1'',
              Complete],
             Dependency_Identifier [''ADD R1, R2, R3'', ''MUL R1, R4, R5''])
   \<and> (0, 1) \<in> set (index_pairs [Heading WAW,
              Found WAW 0 ''ADD R1, R2, R3'' ''R1'' 1 ''MUL R1, R4, R5'' ''R1'',
              Complete])
   \<and> destination_register (parse_instruction ([''ADD R1, R2, R3'', ''MUL R1, R4, R5''] ! 1))
       = destination_register (parse_instruction ([''ADD R1, R2, R3'', ''MUL R1, R4, R5''] ! 0))
   \<and> find_WAW_dependencies (Dependency_Identifier [''SD R1, 0(R2)'', ''BEQ R1, R2, L'', ''LD r1, 0(R2)'', ''LD R1, 0(R2)''])
     = Some ([Heading WAW, Complete],
             Dependency_Identifier [''SD R1, 0(R2)'', ''BEQ R1, R2, L'', ''LD r1, 0(R2)'', ''LD R1, 0(R2)''])"
proof -
  have 1: "report WAW [''ADD R1, R2, R3'', ''MUL R1, R4, R5'']
             (waw_records (map parse_instruction [''ADD R1, R2, R3'', ''MUL R1, R4, R5'']))
           = [Heading WAW,
              Found WAW 0 ''ADD R1, R2, R3'' ''R1'' 1 ''MUL R1, R4, R5'' ''R1'',
              Complete]"
    by code_simp
  have 2: "report WAW [''SD R1, 0(R2)'', ''BEQ R1, R2, L'', ''LD r1, 0(R2)'', ''LD R1, 0(R2)'']
             (waw_records (map parse_instruction [''SD R1, 0(R2)'', ''BEQ R1, R2, L'', ''LD r1, 0(R2)'', ''LD R1, 0(R2)'']))
           = [Heading WAW, Complete]"
    by code_simp
  have 3: "(0, 1) \<in> set (index_pairs [Heading WAW,
              Found WAW 0 ''ADD R1, R2, R3'' ''R1'' 1 ''MUL R1, R4, R5'' ''R1'',
              Complete])"
    by simp
  from find_WAW_dependencies_records [of "[''ADD R1, R2, R3'', ''MUL R1, R4, R5'']"]
    find_WAW_dependencies_records [of "[''SD R1, 0(R2)'', ''BEQ R1, R2, L'', ''LD r1, 0(R2)'', ''LD R1, 0(R2)'']"] 3
  show ?thesis
    unfolding 1 2 by blast
qed

text \<open>
  C8: on a scanner constructed with no instruction, each of the three scans writes its
  heading and the line "No instructions to analyze.", and nothing else: no dependency
  and no closing line.
\<close>

theorem scans_of_no_instructions:
  "find_RAW_dependencies (Dependency_Identifier [])
     = Some ([Heading RAW, No_Instructions], Dependency_Identifier [])
   \<and> find_WAR_dependencies (Dependency_Identifier [])
     = Some ([Heading WAR, No_Instructions], Dependency_Identifier [])
   \<and> find_WAW_dependencies (Dependency_Identifier [])
     = Some ([Heading WAW, No_Instructions], Dependency_Identifier [])
   \<and> render_report [Heading RAW, No_Instructions]
     = [''--- Identifying RAW Dependencies ---'', ''No instructions to analyze.'']
   \<and> render_report [Heading WAR, No_Instructions]
     = [''--- Identifying WAR Dependencies ---'', ''No instructions to analyze.'']
   \<and> render_report [Heading WAW, No_Instructions]
     = [''--- Identifying WAW Dependencies ---'', ''No instructions to analyze.'']
   \<and> dependencies [Heading RAW, No_Instructions] = []
   \<and> dependencies [Heading WAR, No_Instructions] = []
   \<and> dependencies [Heading WAW, No_Instructions] = []"
  by (simp add: find_RAW_dependencies_def find_WAR_dependencies_def find_WAW_dependencies_def
      render_report_def dependencies_def)

theorem scans_of_no_instructions_witness:
  "map_option (render_report \<circ> fst) (find_RAW_dependencies (Dependency_Identifier []))
     = Some [''--- Identifying RAW Dependencies ---'', ''No instructions to analyze.'']
   \<and> map_option (dependencies \<circ> fst) (find_WAW_dependencies (Dependency_Identifier [])) = Some []"
  using scans_of_no_instructions by simp

lemma scan_report:
  "scan k (Dependency_Identifier insts) =
     Some (report k insts
             (case k of RAW \<Rightarrow> raw_records (map parse_instruction insts)
                      | WAR \<Rightarrow> war_records (map parse_instruction insts)
                      | WAW \<Rightarrow> waw_records (map parse_instruction insts)),
           Dependency_Identifier insts)"
  by (cases k) (simp_all add: find_RAW_report find_WAR_report find_WAW_report)

lemma run_scans_same:
  assumes "\<And>k. scan k sc = Some (out k, sc)"
  shows "run_scans ks sc = Some (map out ks, sc)"
  using assms by (induction ks) simp_all

text \<open>
  C9: on a constructed scanner each scan has one output, and leaves the scanner (its
  instructions, its parsed instructions and its operand map) as it was; any sequence of
  scans, in any order and with any repetition, returns for each call the output of that
  scan and ends with the same scanner. The dependencies of each output are in ascending
  order of \<open>i\<close>, then of \<open>j\<close>.
\<close>

theorem scans_deterministic:
  "\<exists>out. (\<forall>k. scan k (Dependency_Identifier insts) = Some (out k, Dependency_Identifier insts))
     \<and> run_scans ks (Dependency_Identifier insts)
         = Some (map out ks, Dependency_Identifier insts)
     \<and> (\<forall>k. sorted_wrt pair_le (index_pairs (out k)))"
proof -
  let ?recs = "\<lambda>k. case k of RAW \<Rightarrow> raw_records (map parse_instruction insts)
                      | WAR \<Rightarrow> war_records (map parse_instruction insts)
                      | WAW \<Rightarrow> waw_records (map parse_instruction insts)"
  let ?out = "\<lambda>k. report k insts (?recs k)"
  have each: "\<forall>k. scan k (Dependency_Identifier insts) = Some (?out k, Dependency_Identifier insts)"
    by (simp add: scan_report)
  then have run: "run_scans ks (Dependency_Identifier insts)
         = Some (map ?out ks, Dependency_Identifier insts)"
    by (intro run_scans_same) simp
  have "sorted_wrt pair_le (index_pairs (?out k))" for k
    by (cases k)
      (simp_all add: raw_records_pair war_records_pair waw_records_pair index_pairs_report
        sorted_pair_records)
  then have ordered: "\<forall>k. sorted_wrt pair_le (index_pairs (?out k))"
    by simp
  show ?thesis
    by (rule exI [where x = ?out]) (intro conjI each run ordered)
qed

theorem scans_deterministic_witness:
  "run_scans [RAW, WAW, RAW, WAR, RAW]
      (Dependency_Identifier [''ADD R1, R2, R3'', ''SUB R1, R1, R2''])
     = Some ([[Heading RAW, Found RAW 0 ''ADD R1, R2, R3'' ''R1'' 1 ''SUB R1, R1, R2'' ''R1'', Complete],
              [Heading WAW, Found WAW 0 ''ADD R1, R2, R3'' ''R1'' 1 ''SUB R1, R1, R2'' ''R1'', Complete],
              [Heading RAW, Found RAW 0 ''ADD R1, R2, R3'' ''R1'' 1 ''SUB R1, R1, R2'' ''R1'', Complete],
              [Heading WAR, Complete],
              [Heading RAW, Found RAW 0 ''ADD R1, R2, R3'' ''R1'' 1 ''SUB R1, R1, R2'' ''R1'', Complete]],
             Dependency_Identifier [''ADD R1, R2, R3'', ''SUB R1, R1, R2''])"
proof -
  let ?insts = "[''ADD R1, R2, R3'', ''SUB R1, R1, R2'']"
  from scans_deterministic [of ?insts "[RAW, WAW, RAW, WAR, RAW]"]
  obtain out where each: "\<And>k. scan k (Dependency_Identifier ?insts) = Some (out k, Dependency_Identifier ?insts)"
    and run: "run_scans [RAW, WAW, RAW, WAR, RAW] (Dependency_Identifier ?insts)
         = Some (map out [RAW, WAW, RAW, WAR, RAW], Dependency_Identifier ?insts)"
    by blast
  have 1: "report RAW ?insts (raw_records (map parse_instruction ?insts))
      = [Heading RAW, Found RAW 0 ''ADD R1, R2, R3'' ''R1'' 1 ''SUB R1, R1, R2'' ''R1'', Complete]"
    by code_simp
  have 2: "report WAR ?insts (war_records (map parse_instruction ?insts)) = [Heading WAR, Complete]"
    by code_simp
  have 3: "report WAW ?insts (waw_records (map parse_instruction ?insts))
      = [Heading WAW, Found WAW 0 ''ADD R1, R2, R3'' ''R1'' 1 ''SUB R1, R1, R2'' ''R1'', Complete]"
    by code_simp
  have r: "scan RAW (Dependency_Identifier ?insts)
      = Some ([Heading RAW, Found RAW 0 ''ADD R1, R2, R3'' ''R1'' 1 ''SUB R1, R1, R2'' ''R1'', Complete],
              Dependency_Identifier ?insts)"
    by (simp only: scan_report hazard.case 1)
  have w: "scan WAR (Dependency_Identifier ?insts)
      = Some ([Heading WAR, Complete], Dependency_Identifier ?insts)"
    by (simp only: scan_report hazard.case 2)
  have ww: "scan WAW (Dependency_Identifier ?insts)
      = Some ([Heading WAW, Found WAW 0 ''ADD R1, R2, R3'' ''R1'' 1 ''SUB R1, R1, R2'' ''R1'', Complete],
              Dependency_Identifier ?insts)"
    by (simp only: scan_report hazard.case 3)
  from trans [OF each [of RAW, symmetric] r] trans [OF each [of WAR, symmetric] w]
    trans [OF each [of WAW, symmetric] ww]
  have "out RAW = [Heading RAW, Found RAW 0 ''ADD R1, R2, R3'' ''R1'' 1 ''SUB R1, R1, R2'' ''R1'', Complete]"
    and "out WAR = [Heading WAR, Complete]"
    and "out WAW = [Heading WAW, Found WAW 0 ''ADD R1, R2, R3'' ''R1'' 1 ''SUB R1, R1, R2'' ''R1'', Complete]"
    by simp_all
  with run show ?thesis by simp
qed

section \<open>An instruction that the scans do not see\<close>

lemma nth_bump:
  "i < length (xs @ ys) \<Longrightarrow> (xs @ u # ys) ! bump (length xs) i = (xs @ ys) ! i"
  by (auto simp: bump_def nth_append Suc_diff_le)

lemma concat_map_upt_skip:
  assumes "a \<le> k" and "k \<le> n" and "g k = []"
  shows "concat (map g [a..<Suc n]) = concat (map (\<lambda>i. g (bump k i)) [a..<n])"
proof -
  have split: "[a..<m] = [a..<k] @ [k..<m]" if "a \<le> k" "k \<le> m" for m
    using that upt_add_eq_append [of a k "m - k"] by simp
  from assms have "[a..<Suc n] = [a..<k] @ [k..<Suc n]"
    by (intro split) simp_all
  with assms have l: "[a..<Suc n] = [a..<k] @ k # [Suc k..<Suc n]"
    by (simp add: upt_conv_Cons)
  from assms have r: "[a..<n] = [a..<k] @ [k..<n]"
    by (intro split) simp_all
  have low: "map (\<lambda>i. g (bump k i)) [a..<k] = map g [a..<k]"
    by (rule map_cong [OF refl]) (simp add: bump_def)
  have "map (\<lambda>i. g (bump k i)) [k..<n] = map (\<lambda>i. g (Suc i)) [k..<n]"
    by (rule map_cong [OF refl]) (simp add: bump_def)
  also have "\<dots> = map g (map Suc [k..<n])"
    by (simp add: comp_def)
  also have "\<dots> = map g [Suc k..<Suc n]"
    by (simp only: map_Suc_upt)
  finally have high: "map (\<lambda>i. g (bump k i)) [k..<n] = map g [Suc k..<Suc n]" .
  show ?thesis
    by (simp only: l r map_append concat_append low high list.map concat.simps assms(3) append_Nil)
qed

lemma concat_map_upt_above:
  assumes "k < a"
  shows "concat (map g [Suc a..<Suc n]) = concat (map (\<lambda>i. g (bump k i)) [a..<n])"
proof -
  have "map (\<lambda>i. g (bump k i)) [a..<n] = map (\<lambda>i. g (Suc i)) [a..<n]"
    using assms by (intro map_cong [OF refl]) (simp add: bump_def)
  also have "\<dots> = map g (map Suc [a..<n])"
    by (simp add: comp_def)
  also have "\<dots> = map g [Suc a..<Suc n]"
    by (simp only: map_Suc_upt)
  finally show ?thesis by simp
qed


lemma pair_records_shift:
  assumes len: "length ps' = Suc (length ps)" and k: "k \<le> length ps"
    and u1: "\<forall>b. conflict (ps' ! k) b = []" and u2: "\<forall>a. conflict a (ps' ! k) = []"
    and nth: "\<forall>i<length ps. ps' ! bump k i = ps ! i"
  shows "pair_records conflict ps' = map (shift_record k) (pair_records conflict ps)"
proof -
  let ?n = "length ps"
  let ?c = "\<lambda>i' j'. map (\<lambda>r. (i', j', r)) (conflict (ps' ! i') (ps' ! j'))"
  let ?G' = "\<lambda>i'. concat (map (?c i') [Suc i'..<Suc ?n])"
  let ?cell = "\<lambda>i j. map (\<lambda>r. (i, j, r)) (conflict (ps ! i) (ps ! j))"
  let ?G = "\<lambda>i. concat (map (?cell i) [Suc i..<?n])"
  have Gk: "?G' k = []"
    using u1 by simp
  have "pair_records conflict ps' = concat (map ?G' [0..<Suc ?n])"
    by (simp add: pair_records_def len)
  also have "\<dots> = concat (map (\<lambda>i. ?G' (bump k i)) [0..<?n])"
    using _ k Gk by (rule concat_map_upt_skip) simp
  finally have step1: "pair_records conflict ps' = concat (map (\<lambda>i. ?G' (bump k i)) [0..<?n])" .
  have cell: "?c (bump k i) (bump k j) = map (shift_record k) (?cell i j)"
    if "i < ?n" "j < ?n" for i j
    using that nth by (simp add: shift_record_def comp_def)
  have row: "?G' (bump k i) = map (shift_record k) (?G i)" if i: "i < ?n" for i
  proof -
    have "?G' (bump k i) = concat (map (\<lambda>j. ?c (bump k i) (bump k j)) [Suc i..<?n])"
    proof (cases "i < k")
      case True
      then have b: "bump k i = i" by (simp add: bump_def)
      have "?c i k = []" using u2 by simp
      with True k have "concat (map (?c i) [Suc i..<Suc ?n])
          = concat (map (\<lambda>j. ?c i (bump k j)) [Suc i..<?n])"
        by (intro concat_map_upt_skip) simp_all
      then show ?thesis by (simp only: b)
    next
      case False
      then have b: "bump k i = Suc i" by (simp add: bump_def)
      from False have "k < Suc i" by simp
      then have "concat (map (?c (Suc i)) [Suc (Suc i)..<Suc ?n])
          = concat (map (\<lambda>j. ?c (Suc i) (bump k j)) [Suc i..<?n])"
        by (rule concat_map_upt_above)
      then show ?thesis by (simp only: b)
    qed
    also have "map (\<lambda>j. ?c (bump k i) (bump k j)) [Suc i..<?n]
        = map (\<lambda>j. map (shift_record k) (?cell i j)) [Suc i..<?n]"
      using i by (intro map_cong [OF refl] cell) simp_all
    finally show ?thesis
      by (simp add: map_concat comp_def)
  qed
  have "map (\<lambda>i. ?G' (bump k i)) [0..<?n] = map (\<lambda>i. map (shift_record k) (?G i)) [0..<?n]"
    by (intro map_cong [OF refl] row) simp
  with step1 have "pair_records conflict ps' = concat (map (\<lambda>i. map (shift_record k) (?G i)) [0..<?n])"
    by (simp only:)
  also have "\<dots> = map (shift_record k) (concat (map ?G [0..<?n]))"
    by (simp add: map_concat comp_def)
  also have "concat (map ?G [0..<?n]) = pair_records conflict ps"
    by (simp add: pair_records_def)
  finally show ?thesis .
qed

lemma scan_pair_records:
  "scan h (Dependency_Identifier insts) =
     Some (report h insts (pair_records (hazard_registers h) (map parse_instruction insts)),
           Dependency_Identifier insts)"
  by (cases h)
    (simp_all add: find_RAW_report find_WAR_report find_WAW_report
      raw_records_pair war_records_pair waw_records_pair)

lemma unknown_opcode_registers:
  assumes "initial_operand_map (to_upper opcode) = None"
  shows "destination_register (opcode # operands) = None"
    and "source_registers (opcode # operands) = []"
proof -
  from assms have "opcode_table (to_upper opcode) = None"
    by (simp add: initial_operand_map_table)
  then show "destination_register (opcode # operands) = None"
    and "source_registers (opcode # operands) = []"
    by (simp_all add: destination_register_def source_registers_def)
qed

lemma hazard_registers_unseen:
  assumes "destination_register u = None" and "source_registers u = []"
  shows "hazard_registers h u b = []" and "hazard_registers h a u = []"
  using assms
  by (cases h; simp add: raw_registers_def war_registers_def waw_registers_def
      split: option.splits)+

lemma nth_removed:
  assumes "k < length insts" and "i < length (take k insts @ drop (Suc k) insts)"
  shows "insts ! bump k i = (take k insts @ drop (Suc k) insts) ! i"
proof -
  have "insts = take k insts @ insts ! k # drop (Suc k) insts"
    using assms(1) by (rule id_take_nth_drop)
  then have "insts ! bump k i =
      (take k insts @ insts ! k # drop (Suc k) insts) ! bump (length (take k insts)) i"
    using assms(1) by simp
  also have "\<dots> = (take k insts @ drop (Suc k) insts) ! i"
    using assms(2) by (rule nth_bump)
  finally show ?thesis .
qed

lemma dependencies_report:
  "dependencies (report h insts (pair_records conflict (map parse_instruction insts))) =
     map (found h insts) (pair_records conflict (map parse_instruction insts))"
proof -
  have "filter is_dependency (map (found h insts) recs) = map (found h insts) recs" for recs
    by (induction recs) (auto simp: found_def)
  then show ?thesis
    by (simp add: dependencies_def report_def)
qed

lemma found_shift:
  assumes "k < length insts"
    and "i < length (take k insts @ drop (Suc k) insts)"
    and "j < length (take k insts @ drop (Suc k) insts)"
  shows "found h insts (shift_record k (i, j, r)) =
         shift_item k (found h (take k insts @ drop (Suc k) insts) (i, j, r))"
  using nth_removed [OF assms(1,2)] nth_removed [OF assms(1,3)]
  by (simp add: found_def shift_record_def)


text \<open>
  C7: an instruction whose opcode, in upper case, is not in the operand map of the
  constructor has no destination register and no source register; no dependency of any
  of the three scans has its index as the earlier or as the later one; and the
  dependencies of each scan are those of the scan of the sequence without that
  instruction, with the indices from its own on moved up by one: it keeps its place in
  the program order.
\<close>

theorem unknown_opcode_unseen:
  assumes "k < length insts"
    and "parse_instruction (insts ! k) = opcode # operands"
    and "initial_operand_map (to_upper opcode) = None"
  shows "get_destination_register (Dependency_Identifier insts) k = Some []
     \<and> get_source_registers (Dependency_Identifier insts) k = Some []
     \<and> (\<forall>h. \<exists>out out'.
          scan h (Dependency_Identifier insts) = Some (out, Dependency_Identifier insts)
          \<and> (\<forall>i j. (i, j) \<in> set (index_pairs out) \<longrightarrow> i \<noteq> k \<and> j \<noteq> k)
          \<and> scan h (Dependency_Identifier (take k insts @ drop (Suc k) insts))
              = Some (out', Dependency_Identifier (take k insts @ drop (Suc k) insts))
          \<and> dependencies out = map (shift_item k) (dependencies out'))"
proof -
  let ?u = "parse_instruction (insts ! k)"
  let ?rest = "take k insts @ drop (Suc k) insts"
  let ?ps' = "map parse_instruction insts" and ?ps = "map parse_instruction ?rest"
  from assms(2,3) have none: "destination_register ?u = None" "source_registers ?u = []"
    by (simp_all add: unknown_opcode_registers)
  from assms(1) none have dest: "get_destination_register (Dependency_Identifier insts) k = Some []"
    by (simp add: get_destination_register_spec register_string_def)
  from assms(1) none have srcs: "get_source_registers (Dependency_Identifier insts) k = Some []"
    by (simp add: get_source_registers_spec)
  have scans: "\<exists>out out'.
          scan h (Dependency_Identifier insts) = Some (out, Dependency_Identifier insts)
          \<and> (\<forall>i j. (i, j) \<in> set (index_pairs out) \<longrightarrow> i \<noteq> k \<and> j \<noteq> k)
          \<and> scan h (Dependency_Identifier ?rest) = Some (out', Dependency_Identifier ?rest)
          \<and> dependencies out = map (shift_item k) (dependencies out')" for h
  proof -
    let ?F = "hazard_registers h"
    let ?out = "report h insts (pair_records ?F ?ps')"
    let ?out' = "report h ?rest (pair_records ?F ?ps)"
    have unseen: "\<forall>i j. (i, j) \<in> set (index_pairs ?out) \<longrightarrow> i \<noteq> k \<and> j \<noteq> k"
      using hazard_registers_unseen [OF none, of h]
      by (auto simp: in_index_pairs_report)
    from assms(1) have len: "length ?ps' = Suc (length ?ps)" and k: "k \<le> length ?ps"
      by (simp_all add: min_def)
    from assms(1) have uk: "?ps' ! k = ?u"
      by simp
    have nth: "\<forall>i<length ?ps. ?ps' ! bump k i = ?ps ! i"
    proof (intro allI impI)
      fix i assume i: "i < length ?ps"
      then have i': "i < length ?rest" by simp
      with assms(1) have "bump k i < length insts"
        by (auto simp: bump_def min_def)
      then have "?ps' ! bump k i = parse_instruction (insts ! bump k i)"
        by simp
      also have "\<dots> = parse_instruction (?rest ! i)"
        using nth_removed [OF assms(1) i'] by simp
      also have "\<dots> = ?ps ! i"
        using i' by (simp only: nth_map)
      finally show "?ps' ! bump k i = ?ps ! i" .
    qed
    have shift: "pair_records ?F ?ps' = map (shift_record k) (pair_records ?F ?ps)"
      using len k _ _ nth
      by (rule pair_records_shift) (simp_all only: uk hazard_registers_unseen [OF none] simp_thms)
    have moved: "map (found h insts) (map (shift_record k) (pair_records ?F ?ps))
        = map (shift_item k) (map (found h ?rest) (pair_records ?F ?ps))"
      unfolding map_map comp_def
    proof (rule map_cong [OF refl])
      fix rec assume rec: "rec \<in> set (pair_records ?F ?ps)"
      obtain i j r where ijr: "rec = (i, j, r)" by (cases rec)
      with rec have "i < j" "j < length ?ps"
        by (simp_all add: in_pair_records)
      then have "i < length ?rest" "j < length ?rest"
        by simp_all
      then show "found h insts (shift_record k rec) = shift_item k (found h ?rest rec)"
        unfolding ijr using assms(1) by (intro found_shift)
    qed
    have "dependencies ?out = map (found h insts) (pair_records ?F ?ps')"
      by (rule dependencies_report)
    also have "\<dots> = map (found h insts) (map (shift_record k) (pair_records ?F ?ps))"
      by (simp only: shift)
    also have "\<dots> = map (shift_item k) (map (found h ?rest) (pair_records ?F ?ps))"
      by (rule moved)
    also have "\<dots> = map (shift_item k) (dependencies ?out')"
      by (simp only: dependencies_report)
    finally have deps: "dependencies ?out = map (shift_item k) (dependencies ?out')" .
    show ?thesis
      by (rule exI [where x = ?out], rule exI [where x = ?out'])
        (intro conjI scan_pair_records unseen deps)
  qed
  from dest srcs scans show ?thesis by blast
qed


theorem unknown_opcode_unseen_witness:
  "1 < length [''ADD R1, R2, R3'', ''NOP R1, R1, R1'', ''SUB R1, R1, R5'']
   \<and> parse_instruction ([''ADD R1, R2, R3'', ''NOP R1, R1, R1'', ''SUB R1, R1, R5''] ! 1)
       = ''NOP'' # [''R1'', ''R1'', ''R1'']
   \<and> initial_operand_map (to_upper ''NOP'') = None
   \<and> get_destination_register
         (Dependency_Identifier [''ADD R1, R2, R3'', ''NOP R1, R1, R1'', ''SUB R1, R1, R5'']) 1
       = Some []
   \<and> get_source_registers
         (Dependency_Identifier [''ADD R1, R2, R3'', ''NOP R1, R1, R1'', ''SUB R1, R1, R5'']) 1
       = Some []
   \<and> scan RAW (Dependency_Identifier [''ADD R1, R2, R3'', ''NOP R1, R1, R1'', ''SUB R1, R1, R5''])
       = Some ([Heading RAW,
                Found RAW 0 ''ADD R1, R2, R3'' ''R1'' 2 ''SUB R1, R1, R5'' ''R1'',
                Complete],
               Dependency_Identifier [''ADD R1, R2, R3'', ''NOP R1, R1, R1'', ''SUB R1, R1, R5''])
   \<and> scan RAW (Dependency_Identifier [''ADD R1, R2, R3'', ''SUB R1, R1, R5''])
       = Some ([Heading RAW,
                Found RAW 0 ''ADD R1, R2, R3'' ''R1'' 1 ''SUB R1, R1, R5'' ''R1'',
                Complete],
               Dependency_Identifier [''ADD R1, R2, R3'', ''SUB R1, R1, R5''])
   \<and> dependencies [Heading RAW,
                Found RAW 0 ''ADD R1, R2, R3'' ''R1'' 2 ''SUB R1, R1, R5'' ''R1'',
                Complete]
       = map (shift_item 1)
           (dependencies [Heading RAW,
                Found RAW 0 ''ADD R1, R2, R3'' ''R1'' 1 ''SUB R1, R1, R5'' ''R1'',
                Complete])"
proof -
  let ?insts = "[''ADD R1, R2, R3'', ''NOP R1, R1, R1'', ''SUB R1, R1, R5'']"
  let ?rest = "[''ADD R1, R2, R3'', ''SUB R1, R1, R5'']"
  let ?out = "[Heading RAW,
                Found RAW 0 ''ADD R1, R2, R3'' ''R1'' 2 ''SUB R1, R1, R5'' ''R1'',
                Complete]"
  let ?out' = "[Heading RAW,
                Found RAW 0 ''ADD R1, R2, R3'' ''R1'' 1 ''SUB R1, R1, R5'' ''R1'',
                Complete]"
  have h1: "1 < length ?insts" by simp
  have "parse_instruction ''NOP R1, R1, R1'' = ''NOP'' # [''R1'', ''R1'', ''R1'']"
    by code_simp
  then have h2: "parse_instruction (?insts ! 1) = ''NOP'' # [''R1'', ''R1'', ''R1'']"
    by simp
  have h3: "initial_operand_map (to_upper ''NOP'') = None"
    by code_simp
  have rest: "take 1 ?insts @ drop (Suc 1) ?insts = ?rest"
    by simp
  have e: "report RAW ?insts (pair_records (hazard_registers RAW) (map parse_instruction ?insts)) = ?out"
    by code_simp
  have e': "report RAW ?rest (pair_records (hazard_registers RAW) (map parse_instruction ?rest)) = ?out'"
    by code_simp
  have s: "scan RAW (Dependency_Identifier ?insts) = Some (?out, Dependency_Identifier ?insts)"
    by (simp only: scan_pair_records e)
  have s': "scan RAW (Dependency_Identifier ?rest) = Some (?out', Dependency_Identifier ?rest)"
    by (simp only: scan_pair_records e')
  from unknown_opcode_unseen [OF h1 h2 h3]
  have dest: "get_destination_register (Dependency_Identifier ?insts) 1 = Some []"
    and srcs: "get_source_registers (Dependency_Identifier ?insts) 1 = Some []"
    and "\<exists>out out'.
          scan RAW (Dependency_Identifier ?insts) = Some (out, Dependency_Identifier ?insts)
          \<and> scan RAW (Dependency_Identifier (take 1 ?insts @ drop (Suc 1) ?insts))
              = Some (out', Dependency_Identifier (take 1 ?insts @ drop (Suc 1) ?insts))
          \<and> dependencies out = map (shift_item 1) (dependencies out')"
    by blast+
  then have "dependencies ?out = map (shift_item 1) (dependencies ?out')"
    unfolding rest s s' by blast
  with h1 h2 h3 dest srcs s s' show ?thesis
    by (intro conjI)
qed

section \<open>The tokens of an instruction\<close>

lemma opcode_names_dom: "set opcode_names = dom initial_operand_map"
  by (auto simp: opcode_names_def initial_operand_map_def split: if_splits)

lemma replace_delimiters:
  "replace_char (CHR '')'') (CHR '' '')
     (replace_char (CHR ''('') (CHR '' '')
       (replace_char (CHR '';'') (CHR '' '')
         (replace_char (CHR '','') (CHR '' '') raw)))
   = map (\<lambda>c. if delimiter c then CHR '' '' else c) raw"
  by (simp add: replace_char_def delimiter_def)

lemma split_words_word:
  "split_words cur s =
     (if cur @ takeWhile (\<lambda>c. \<not> isspace c) s = []
      then split_words [] (dropWhile (\<lambda>c. \<not> isspace c) s)
      else (cur @ takeWhile (\<lambda>c. \<not> isspace c) s)
             # split_words [] (dropWhile (\<lambda>c. \<not> isspace c) s))"
  by (induction s arbitrary: cur) auto

lemma split_words_skip: "split_words [] (dropWhile isspace s) = split_words [] s"
  by (induction s) auto

lemma read_parts_split_words: "read_parts s = map trim (split_words [] s)"
proof (induction s rule: read_parts.induct)
  case (1 s)
  let ?s' = "dropWhile isspace s"
  show ?case
  proof (cases "stream_extract s")
    case None
    then have e: "?s' = []"
      by (simp add: stream_extract_def Let_def split: if_splits)
    have "split_words [] s = split_words [] ?s'"
      by (simp only: split_words_skip)
    also have "\<dots> = []"
      unfolding e by simp
    finally have "split_words [] s = []" .
    with None show ?thesis
      by (subst read_parts.simps) simp
  next
    case (Some pr)
    obtain p rest where pr: "pr = (p, rest)" by (cases pr)
    from Some pr have p: "p = takeWhile (\<lambda>c. \<not> isspace c) ?s'"
      and rest: "rest = dropWhile (\<lambda>c. \<not> isspace c) ?s'"
      by (auto simp: stream_extract_def Let_def split: if_splits)
    from Some pr have "p \<noteq> []"
      by (auto dest: stream_extract_token)
    then have "split_words [] ?s' = p # split_words [] rest"
      using split_words_word [of "[]" ?s'] by (simp add: p rest)
    then have "split_words [] s = p # split_words [] rest"
      by (simp add: split_words_skip)
    moreover have "read_parts rest = map trim (split_words [] rest)"
      using "1.IH" Some pr by simp
    ultimately show ?thesis
      using Some pr by (subst read_parts.simps) simp
  qed
qed

lemma parse_instruction_tokenize: "parse_instruction raw = tokenize raw"
  by (simp add: parse_instruction_def tokenize_def replace_delimiters read_parts_split_words)

lemma read_parts_Nil: "read_parts s = [] \<longleftrightarrow> (\<forall>c\<in>set s. isspace c)"
  by (subst read_parts.simps)
    (auto simp: stream_extract_def Let_def)

lemma isspace_space: "isspace (CHR '' '')"
  by (simp add: isspace_def)

lemma parse_instruction_Nil:
  "parse_instruction raw = [] \<longleftrightarrow> (\<forall>c\<in>set raw. isspace c \<or> delimiter c)"
  by (auto simp: parse_instruction_def replace_delimiters read_parts_Nil isspace_space)

lemma filter_dropWhile_not: "filter P (dropWhile (\<lambda>c. \<not> P c) s) = filter P s"
  by (induction s) auto

lemma concat_read_parts: "concat (read_parts s) = filter (\<lambda>c. \<not> isspace c) s"
proof (induction s rule: read_parts.induct)
  case (1 s)
  let ?s' = "dropWhile isspace s"
  show ?case
  proof (cases "stream_extract s")
    case None
    then have "?s' = []"
      by (simp add: stream_extract_def Let_def split: if_splits)
    then have "\<forall>c\<in>set s. isspace c"
      by simp
    then have "filter (\<lambda>c. \<not> isspace c) s = []"
      by (simp add: filter_empty_conv)
    with None show ?thesis
      by (subst read_parts.simps) simp
  next
    case (Some pr)
    obtain p rest where pr: "pr = (p, rest)" by (cases pr)
    from Some pr have p: "p = takeWhile (\<lambda>c. \<not> isspace c) ?s'"
      and rest: "rest = dropWhile (\<lambda>c. \<not> isspace c) ?s'"
      by (auto simp: stream_extract_def Let_def split: if_splits)
    from Some pr have tok: "p \<noteq> [] \<and> (\<forall>c\<in>set p. \<not> isspace c)"
      by (auto dest: stream_extract_token)
    then have tr: "trim p = p" by (simp add: trim_token)
    have "filter (\<lambda>c. \<not> isspace c) s = filter (\<lambda>c. \<not> isspace c) ?s'"
      using filter_dropWhile_not [of "\<lambda>c. \<not> isspace c" s] by simp
    also have "\<dots> = filter (\<lambda>c. \<not> isspace c) (p @ rest)"
      by (simp add: p rest)
    also have "\<dots> = p @ filter (\<lambda>c. \<not> isspace c) rest"
      using tok by (simp add: filter_id_conv)
    finally have "filter (\<lambda>c. \<not> isspace c) s = p @ filter (\<lambda>c. \<not> isspace c) rest" .
    moreover have "concat (read_parts rest) = filter (\<lambda>c. \<not> isspace c) rest"
      using "1.IH" Some pr by simp
    ultimately show ?thesis
      using Some pr tr by (subst read_parts.simps) simp
  qed
qed

lemma concat_parse_instruction:
  "concat (parse_instruction raw) = filter (\<lambda>c. \<not> isspace c \<and> \<not> delimiter c) raw"
proof -
  have "filter (\<lambda>c. \<not> isspace c) (map (\<lambda>c. if delimiter c then CHR '' '' else c) raw)
      = filter (\<lambda>c. \<not> isspace c \<and> \<not> delimiter c) raw"
    by (induction raw) (auto simp: isspace_space)
  then show ?thesis
    by (simp add: parse_instruction_def replace_delimiters concat_read_parts)
qed

lemma parse_instruction_token:
  assumes "t \<in> set (parse_instruction raw)"
  shows "t \<noteq> [] \<and> trim t = t \<and> (\<forall>c\<in>set t. \<not> isspace c \<and> \<not> delimiter c)"
proof -
  from assms have tok: "t \<noteq> [] \<and> (\<forall>c\<in>set t. \<not> isspace c)"
    by (auto simp: parse_instruction_def dest: read_parts_tokens)
  from assms have "set t \<subseteq> set (concat (parse_instruction raw))"
    by auto
  then have "\<forall>c\<in>set t. \<not> delimiter c"
    by (auto simp: concat_parse_instruction)
  with tok show ?thesis
    by (simp add: trim_token)
qed


text \<open>
  C4, as the claim states it, fails: an input that mentions no opcode of the table still
  has its tokens.
\<close>

theorem tokens_without_opcode:
  "\<not> mentions_opcode ''FOO R1, R2''
   \<and> parse_instruction ''FOO R1, R2'' = [''FOO'', ''R1'', ''R2'']
   \<and> parse_instruction ''FOO R1, R2'' \<noteq> []"
  by code_simp

text \<open>
  C4, amended: \<open>parse_instruction\<close> is \<open>tokenize\<close>: the four delimiters become spaces, the
  text is split on runs of white space and each token is trimmed. The result is the
  empty sequence exactly when every character of the input is white space or a
  delimiter (so for the empty input), whether or not an opcode is recognizable. Every
  token is not empty, is its own trimmed form and has no white space and no delimiter,
  and the tokens are, in order, the other characters of the input. The function has a
  result for every input.
\<close>

theorem parse_instruction_tokenizes:
  "parse_instruction raw = tokenize raw
   \<and> (parse_instruction raw = [] \<longleftrightarrow> (\<forall>c\<in>set raw. isspace c \<or> delimiter c))
   \<and> (\<forall>t\<in>set (parse_instruction raw).
         t \<noteq> [] \<and> trim t = t \<and> (\<forall>c\<in>set t. \<not> isspace c \<and> \<not> delimiter c))
   \<and> concat (parse_instruction raw) = filter (\<lambda>c. \<not> isspace c \<and> \<not> delimiter c) raw
   \<and> parse_instruction ''LD R1, 0(R2)'' = [''LD'', ''R1'', ''0'', ''R2'']
   \<and> parse_instruction ''BEQ R1,R2,LABEL'' = [''BEQ'', ''R1'', ''R2'', ''LABEL'']
   \<and> parse_instruction [] = []"
proof -
  have 1: "parse_instruction ''LD R1, 0(R2)'' = [''LD'', ''R1'', ''0'', ''R2'']"
    by code_simp
  have 2: "parse_instruction ''BEQ R1,R2,LABEL'' = [''BEQ'', ''R1'', ''R2'', ''LABEL'']"
    by code_simp
  have 3: "parse_instruction [] = []"
    by (simp add: parse_instruction_Nil)
  have 4: "\<forall>t\<in>set (parse_instruction raw).
         t \<noteq> [] \<and> trim t = t \<and> (\<forall>c\<in>set t. \<not> isspace c \<and> \<not> delimiter c)"
    using parse_instruction_token by blast
  from parse_instruction_tokenize [of raw] parse_instruction_Nil [of raw] 4
    concat_parse_instruction [of raw] 1 2 3
  show ?thesis by (intro conjI)
qed

theorem parse_instruction_tokenizes_witness:
  "list_all (\<lambda>c. isspace c \<or> delimiter c) '' ,;() ''
   \<and> parse_instruction '' ,;() '' = []
   \<and> parse_instruction ''sd R1;0(R3)'' = [''sd'', ''R1'', ''0'', ''R3'']
   \<and> tokenize ''sd R1;0(R3)'' = [''sd'', ''R1'', ''0'', ''R3'']
   \<and> list_all (\<lambda>t. t \<noteq> [] \<and> trim t = t) [''sd'', ''R1'', ''0'', ''R3'']"
proof -
  have a: "list_all (\<lambda>c. isspace c \<or> delimiter c) '' ,;() ''"
    by code_simp
  then have "\<forall>c\<in>set '' ,;() ''. isspace c \<or> delimiter c"
    by (simp only: list_all_iff)
  with parse_instruction_tokenizes [of "'' ,;() ''"] have b: "parse_instruction '' ,;() '' = []"
    by blast
  have c: "parse_instruction ''sd R1;0(R3)'' = [''sd'', ''R1'', ''0'', ''R3'']"
    by code_simp
  from parse_instruction_tokenizes [of "''sd R1;0(R3)''"]
  have d: "tokenize ''sd R1;0(R3)'' = parse_instruction ''sd R1;0(R3)''"
    and "\<forall>t\<in>set (parse_instruction ''sd R1;0(R3)''). t \<noteq> [] \<and> trim t = t"
    by simp_all
  then have e: "list_all (\<lambda>t. t \<noteq> [] \<and> trim t = t) [''sd'', ''R1'', ''0'', ''R3'']"
    by (simp only: c list_all_iff)
  from a b c d e show ?thesis
    by (simp only: simp_thms)
qed

end
